theory Spec2Isabelle
  imports Main "HOL-Library.Multiset"
begin

section \<open>Errors\<close>

text \<open>
  The library is modelled in its debug build (\<^verbatim>\<open>NDEBUG\<close> undefined), where every
  \<^verbatim>\<open>assert\<close> is live. A failed assertion, a dereference of a null pointer and a call of
  an empty \<^verbatim>\<open>std::function\<close> end the program; here each is a value of type \<open>error\<close>.
\<close>

datatype error =
    FutureAlreadySet        \<comment> \<open>\<^verbatim>\<open>assert(!value_.has_value())\<close> in \<^verbatim>\<open>Future::SetValue\<close>\<close>
  | NullListener            \<comment> \<open>\<^verbatim>\<open>assert(cb != nullptr)\<close> in \<^verbatim>\<open>Future::InvokeOnValueAvailable\<close>\<close>
  | FutureNotReady          \<comment> \<open>\<^verbatim>\<open>assert(value_.has_value())\<close> in \<^verbatim>\<open>Future::GetValueInternal\<close>\<close>
  | AlreadyStarted nat      \<comment> \<open>\<^verbatim>\<open>assert(!isStarted_)\<close> in \<^verbatim>\<open>TaskImpl::MarkAsStarted\<close>, with the node's address\<close>
  | NoScheduler             \<comment> \<open>\<^verbatim>\<open>assert(scheduler != nullptr)\<close>\<close>
  | NoThreads               \<comment> \<open>\<^verbatim>\<open>assert(numThreads > 0)\<close>\<close>
  | NullPointer             \<comment> \<open>an empty handle or a null scheduler pointer is dereferenced\<close>
  | Dangling                \<comment> \<open>a pointer to an object that was never created is dereferenced\<close>
  | NullFunctor             \<comment> \<open>\<^verbatim>\<open>assert(functor != nullptr)\<close> in \<^verbatim>\<open>WorkerThreadRoutine\<close>\<close>
  | EmptyQueue              \<comment> \<open>\<^verbatim>\<open>taskQueue_.front()\<close> on an empty queue\<close>
  | BadFunctionCall         \<comment> \<open>an empty \<^verbatim>\<open>std::function\<close> is called\<close>
  | IllTyped                \<comment> \<open>a value of a shape that the C++ types exclude\<close>
  | BadRefCount             \<comment> \<open>\<^verbatim>\<open>assert(refCount >= 0)\<close> in \<^verbatim>\<open>AddRef\<close>, \<^verbatim>\<open>assert(refCount > 0)\<close> in \<^verbatim>\<open>Release\<close>\<close>
  | Deleted nat             \<comment> \<open>\<^verbatim>\<open>Delete(this)\<close> in \<^verbatim>\<open>Release\<close>, with the node's address\<close>
  | NotEnabled              \<comment> \<open>the chosen thread cannot take a step now\<close>

section \<open>Future\<close>

text \<open>
  \<^verbatim>\<open>Future<Ret>\<close> of \<^verbatim>\<open>Future.h\<close>: the optional value and the queue of one-shot
  listeners. The mutex and the condition variable carry no data; the mutex shows in the
  model as the atomicity of the three locked sections below. \<^verbatim>\<open>Future<void>\<close> is the same
  class at the value type \<open>unit\<close> (its \<^verbatim>\<open>hasValue_\<close> is \<open>value' \<noteq> None\<close>; the field \<^verbatim>\<open>value_\<close> is written \<open>value'\<close>,
  and the other fields drop the trailing underscore of their C++ names).
  The type \<open>'c\<close> is the type of the listeners (\<^verbatim>\<open>OnValueAvailable\<close>).
\<close>

datatype WaitStatus = kTimeout | kReady

record ('v, 'c) Future =
  value' :: "'v option"
  onValueAvailable :: "'c list"

definition Future_default :: "('v, 'c) Future" where
  "Future_default = \<lparr>value' = None, onValueAvailable = []\<rparr>"

definition IsReadyInternal :: "('v, 'c) Future \<Rightarrow> bool" where
  "IsReadyInternal f = (value' f \<noteq> None)"

definition IsReady :: "('v, 'c) Future \<Rightarrow> bool" where
  "IsReady f = IsReadyInternal f"

definition GetValueInternal :: "('v, 'c) Future \<Rightarrow> error + 'v" where
  "GetValueInternal f = (case value' f of None \<Rightarrow> Inl FutureNotReady | Some v \<Rightarrow> Inr v)"

text \<open>
  \<^verbatim>\<open>GetValue\<close> waits, then reads. \<open>None\<close> is the caller blocked on \<^verbatim>\<open>hasValueCv_\<close>
  because the future is Empty; \<open>Some v\<close> is the call returning at once with \<open>v\<close>.
\<close>

definition GetValue :: "('v, 'c) Future \<Rightarrow> 'v option" where
  "GetValue f = value' f"

subsection \<open>The locked sections\<close>

text \<open>The block of \<^verbatim>\<open>SetValue\<close> that holds the mutex: the assertion and the write.\<close>

definition SetValue_locked :: "'v \<Rightarrow> ('v, 'c) Future \<Rightarrow> error + ('v, 'c) Future" where
  "SetValue_locked v f =
     (if value' f \<noteq> None then Inl FutureAlreadySet else Inr (f\<lparr>value' := Some v\<rparr>))"

text \<open>
  The block of \<^verbatim>\<open>InvokeOnValueAvailable\<close> that holds the mutex. The second component is
  the local variable \<^verbatim>\<open>callback\<close>: the listener when the caller has to invoke it itself,
  \<open>None\<close> when it was queued.
\<close>

definition Subscribe_locked :: "'c \<Rightarrow> ('v, 'c) Future \<Rightarrow> ('v, 'c) Future \<times> 'c option" where
  "Subscribe_locked cb f =
     (if IsReadyInternal f then (f, Some cb)
      else (f\<lparr>onValueAvailable := onValueAvailable f @ [cb]\<rparr>, None))"

text \<open>
  The block of the loop of \<^verbatim>\<open>CallAllValueListener\<close> that holds the mutex: \<open>None\<close> is
  the \<^verbatim>\<open>break\<close> on an empty queue, otherwise the front listener is taken out.
\<close>

definition Pop_locked :: "('v, 'c) Future \<Rightarrow> (('v, 'c) Future \<times> 'c) option" where
  "Pop_locked f =
     (case onValueAvailable f of
        [] \<Rightarrow> None
      | cb # rest \<Rightarrow> Some (f\<lparr>onValueAvailable := rest\<rparr>, cb))"

subsection \<open>The operations, run by one thread at a time\<close>

text \<open>
  A listener is opaque here; calling it is recorded as the pair of the listener and the
  value it received. Each operation returns the future and the calls it made, in order.
\<close>

function CallAllValueListener ::
  "('v, 'c) Future \<Rightarrow> error + (('v, 'c) Future \<times> ('c \<times> 'v) list)" where
  "CallAllValueListener f =
     (case Pop_locked f of
        None \<Rightarrow> Inr (f, [])
      | Some (f', cb) \<Rightarrow>
          (case GetValueInternal f' of
             Inl e \<Rightarrow> Inl e
           | Inr v \<Rightarrow>
               (case CallAllValueListener f' of
                  Inl e \<Rightarrow> Inl e
                | Inr (f'', calls) \<Rightarrow> Inr (f'', (cb, v) # calls))))"
  by pat_completeness auto
termination
  by (relation "measure (\<lambda>f. length (onValueAvailable f))")
     (auto simp: Pop_locked_def split: list.splits)

declare CallAllValueListener.simps [simp del]

definition SetValue ::
  "'v \<Rightarrow> ('v, 'c) Future \<Rightarrow> error + (('v, 'c) Future \<times> ('c \<times> 'v) list)" where
  "SetValue v f =
     (case SetValue_locked v f of
        Inl e \<Rightarrow> Inl e
      | Inr f' \<Rightarrow> CallAllValueListener f')"

text \<open>The argument is \<open>None\<close> for an empty \<^verbatim>\<open>std::function\<close>.\<close>

definition InvokeOnValueAvailable ::
  "'c option \<Rightarrow> ('v, 'c) Future \<Rightarrow> error + (('v, 'c) Future \<times> ('c \<times> 'v) list)" where
  "InvokeOnValueAvailable cb f =
     (case cb of
        None \<Rightarrow> Inl NullListener
      | Some c \<Rightarrow>
          (case Subscribe_locked c f of
             (f', None) \<Rightarrow> Inr (f', [])
           | (f', Some callback) \<Rightarrow>
               (case GetValueInternal f' of
                  Inl e \<Rightarrow> Inl e
                | Inr v \<Rightarrow> Inr (f', [(callback, v)]))))"

text \<open>
  \<^verbatim>\<open>WaitFor\<close> is \<^verbatim>\<open>hasValueCv_.wait_for(lck, millis, pred)\<close>, which the C++ standard
  defines as \<^verbatim>\<open>while (!pred()) if (wait_until(lck, t) == timeout) return pred(); return true;\<close>.
  Time is abstracted: the caller of the model gives the states of the future that the
  waiting thread sees under the mutex, first at the call and at each wake-up before the
  deadline (\<open>wakeups\<close>), then at the deadline (\<open>atDeadline\<close>). The future is not changed
  (\<^verbatim>\<open>WaitFor\<close> is a \<^verbatim>\<open>const\<close> member and writes no field).
\<close>

fun wait_for :: "('s \<Rightarrow> bool) \<Rightarrow> 's list \<Rightarrow> 's \<Rightarrow> bool" where
  "wait_for pred [] atDeadline = pred atDeadline"
| "wait_for pred (s # wakeups) atDeadline =
     (if pred s then True else wait_for pred wakeups atDeadline)"

definition WaitFor :: "('v, 'c) Future list \<Rightarrow> ('v, 'c) Future \<Rightarrow> WaitStatus" where
  "WaitFor wakeups atDeadline =
     (let hasValue = wait_for (\<lambda>f. value' f \<noteq> None) wakeups atDeadline
      in if hasValue then kReady else kTimeout)"

subsection \<open>Sequences of operations on one future\<close>

text \<open>
  The mutex orders the operations that different threads apply to one future. Such an
  order is a list of operations; \<open>run_ops\<close> applies them and collects, for each
  operation, the listener calls it made.
\<close>

datatype ('v, 'c) future_op = OpSet 'v | OpSubscribe 'c

fun apply_op ::
  "('v, 'c) future_op \<Rightarrow> ('v, 'c) Future \<Rightarrow> error + (('v, 'c) Future \<times> ('c \<times> 'v) list)" where
  "apply_op (OpSet v) f = SetValue v f"
| "apply_op (OpSubscribe c) f = InvokeOnValueAvailable (Some c) f"

fun run_ops ::
  "('v, 'c) future_op list \<Rightarrow> ('v, 'c) Future \<Rightarrow>
     error + (('v, 'c) Future \<times> ('c \<times> 'v) list list)" where
  "run_ops [] f = Inr (f, [])"
| "run_ops (op # ops) f =
     (case apply_op op f of
        Inl e \<Rightarrow> Inl e
      | Inr (f', calls) \<Rightarrow>
          (case run_ops ops f' of
             Inl e \<Rightarrow> Inl e
           | Inr (f'', rest) \<Rightarrow> Inr (f'', calls # rest)))"

fun is_set :: "('v, 'c) future_op \<Rightarrow> bool" where
  "is_set (OpSet v) = True"
| "is_set (OpSubscribe c) = False"

text \<open>\<open>evolves f f'\<close>: some operations lead from \<open>f\<close> to \<open>f'\<close>.\<close>

inductive evolves :: "('v, 'c) Future \<Rightarrow> ('v, 'c) Future \<Rightarrow> bool" where
  evolves_refl: "evolves f f"
| evolves_step: "evolves f f' \<Longrightarrow> apply_op op f' = Inr (f'', calls) \<Longrightarrow> evolves f f''"

section \<open>ParallelTaskScheduler\<close>

text \<open>
  The fields of \<^verbatim>\<open>ParallelTaskScheduler\<close> that carry data. The type \<open>'j\<close> is the type
  of the callables (\<^verbatim>\<open>std::function<void()>\<close>); \<open>None\<close> in the queue is an empty
  \<^verbatim>\<open>std::function\<close>. The worker threads are kept apart, see \<open>pool_state\<close>.
\<close>

record 'j ParallelTaskScheduler =
  taskQueue :: "'j option list"
  taskCount :: nat
  isRunning :: bool

text \<open>The block of \<^verbatim>\<open>Schedule\<close> that holds \<^verbatim>\<open>queueMutex_\<close>.\<close>

definition Schedule ::
  "'j option \<Rightarrow> 'j ParallelTaskScheduler \<Rightarrow> 'j ParallelTaskScheduler" where
  "Schedule functor p =
     p\<lparr>taskCount := taskCount p + 1, taskQueue := taskQueue p @ [functor]\<rparr>"

text \<open>
  The block of the loop of \<^verbatim>\<open>WorkerThreadRoutine\<close> that holds \<^verbatim>\<open>queueMutex_\<close>:
  \<open>Wait\<close> when the predicate of \<^verbatim>\<open>queueCv_.wait\<close> is false and the thread stays
  asleep, \<open>Break\<close> when the thread leaves the loop, \<open>Took p' f\<close> when it has taken the
  front callable \<open>f\<close> and left the scheduler as \<open>p'\<close>.
\<close>

datatype 'j taken = Wait | Break | Took "'j ParallelTaskScheduler" "'j option"

definition WorkerThreadRoutine_locked :: "'j ParallelTaskScheduler \<Rightarrow> error + 'j taken" where
  "WorkerThreadRoutine_locked p =
     (if \<not> (taskCount p > 0 \<or> \<not> isRunning p) then Inr Wait
      else if \<not> isRunning p \<and> taskCount p = 0 then Inr Break
      else (case taskQueue p of
              [] \<Rightarrow> Inl EmptyQueue
            | functor # rest \<Rightarrow>
                Inr (Took (p\<lparr>taskCount := taskCount p - 1, taskQueue := rest\<rparr>) functor)))"

subsection \<open>A pool with its threads\<close>

text \<open>
  Where a worker thread is in \<^verbatim>\<open>WorkerThreadRoutine\<close>: at the head of the loop, inside
  the call \<^verbatim>\<open>functor()\<close>, or past the \<^verbatim>\<open>break\<close> (the thread has ended and can be
  joined). Where the thread that destroys the pool is in the destructor: not in it,
  at the \<^verbatim>\<open>join\<close> of worker \<open>i\<close> (with \<^verbatim>\<open>isRunning_\<close> already false), or returned.
\<close>

datatype 'j worker = AtLoopHead | InFunctor 'j | Ended

datatype destructor = NotCalled | Joining nat | Returned

text \<open>
  A callable is opaque; \<open>completed\<close> lists the callables whose call has returned, in
  the order of their return.
\<close>

record 'j pool_state =
  pool :: "'j ParallelTaskScheduler"
  workerThreads :: "'j worker list"
  destruct :: destructor
  completed :: "'j list"

text \<open>
  The constructors. \<^verbatim>\<open>ParallelTaskScheduler(size_t numThreads)\<close> asserts a positive
  number; \<^verbatim>\<open>ParallelTaskScheduler()\<close> takes the number from
  \<^verbatim>\<open>std::thread::hardware_concurrency()\<close>, here the argument, and asserts nothing.
\<close>

definition pool_with :: "nat \<Rightarrow> 'j pool_state" where
  "pool_with n =
     \<lparr>pool = \<lparr>taskQueue = [], taskCount = 0, isRunning = True\<rparr>,
      workerThreads = replicate n AtLoopHead,
      destruct = NotCalled,
      completed = []\<rparr>"

definition ParallelTaskScheduler_n :: "nat \<Rightarrow> error + 'j pool_state" where
  "ParallelTaskScheduler_n numThreads =
     (if \<not> numThreads > 0 then Inl NoThreads else Inr (pool_with numThreads))"

definition ParallelTaskScheduler_default :: "nat \<Rightarrow> error + 'j pool_state" where
  "ParallelTaskScheduler_default hardware_concurrency = Inr (pool_with hardware_concurrency)"

text \<open>
  One atomic step of one thread: a call of \<^verbatim>\<open>Schedule\<close> by any thread, the next step
  of worker \<open>k\<close>, or the next step of the destructor.
\<close>

datatype 'j pool_action = DoSchedule "'j option" | Worker nat | Destructor

definition worker_step :: "nat \<Rightarrow> 'j pool_state \<Rightarrow> error + 'j pool_state" where
  "worker_step k s =
     (if \<not> k < length (workerThreads s) then Inl NotEnabled
      else case workerThreads s ! k of
        AtLoopHead \<Rightarrow>
          (case WorkerThreadRoutine_locked (pool s) of
             Inl e \<Rightarrow> Inl e
           | Inr Wait \<Rightarrow> Inl NotEnabled
           | Inr Break \<Rightarrow> Inr (s\<lparr>workerThreads := (workerThreads s)[k := Ended]\<rparr>)
           | Inr (Took p' functor) \<Rightarrow>
               (case functor of
                  None \<Rightarrow> Inl NullFunctor
                | Some j \<Rightarrow>
                    Inr (s\<lparr>pool := p',
                           workerThreads := (workerThreads s)[k := InFunctor j]\<rparr>)))
      | InFunctor j \<Rightarrow>
          Inr (s\<lparr>workerThreads := (workerThreads s)[k := AtLoopHead],
                 completed := completed s @ [j]\<rparr>)
      | Ended \<Rightarrow> Inl NotEnabled)"

definition destructor_step :: "'j pool_state \<Rightarrow> error + 'j pool_state" where
  "destructor_step s =
     (case destruct s of
        NotCalled \<Rightarrow>
          Inr (s\<lparr>pool := (pool s)\<lparr>isRunning := False\<rparr>, destruct := Joining 0\<rparr>)
      | Joining i \<Rightarrow>
          (if \<not> i < length (workerThreads s) then Inr (s\<lparr>destruct := Returned\<rparr>)
           else if workerThreads s ! i = Ended then Inr (s\<lparr>destruct := Joining (i + 1)\<rparr>)
           else Inl NotEnabled)
      | Returned \<Rightarrow> Inl NotEnabled)"

fun pool_step :: "'j pool_action \<Rightarrow> 'j pool_state \<Rightarrow> error + 'j pool_state" where
  "pool_step (DoSchedule functor) s =
     (if destruct s = Returned then Inl NotEnabled
      else Inr (s\<lparr>pool := Schedule functor (pool s)\<rparr>))"
| "pool_step (Worker k) s = worker_step k s"
| "pool_step Destructor s = destructor_step s"

fun pool_run :: "'j pool_action list \<Rightarrow> 'j pool_state \<Rightarrow> error + 'j pool_state" where
  "pool_run [] s = Inr s"
| "pool_run (a # as) s =
     (case pool_step a s of Inl e \<Rightarrow> Inl e | Inr s' \<Rightarrow> pool_run as s')"

text \<open>The callables that a list of steps submits, in order.\<close>

fun submitted :: "'j pool_action list \<Rightarrow> 'j list" where
  "submitted [] = []"
| "submitted (DoSchedule (Some j) # as) = j # submitted as"
| "submitted (a # as) = submitted as"

subsection \<open>What a pool state holds\<close>

text \<open>
  The callables inside a call or completed (\<open>called\<close>), those in the queue, and all of
  them together (\<open>held\<close>), as multisets: a callable may be submitted several times.
\<close>

fun in_call :: "'j worker \<Rightarrow> 'j multiset" where
  "in_call (InFunctor j) = {#j#}"
| "in_call w = {#}"

definition called :: "'j pool_state \<Rightarrow> 'j multiset" where
  "called s = (\<Sum>w\<leftarrow>workerThreads s. in_call w) + mset (completed s)"

fun queued :: "'j option list \<Rightarrow> 'j multiset" where
  "queued [] = {#}"
| "queued (None # q) = queued q"
| "queued (Some j # q) = add_mset j (queued q)"

definition held :: "'j pool_state \<Rightarrow> 'j multiset" where
  "held s = queued (taskQueue (pool s)) + called s"


definition some_ended :: "'j pool_state \<Rightarrow> bool" where
  "some_ended s = (\<exists>k<length (workerThreads s). workerThreads s ! k = Ended)"

text \<open>
  The invariant of the pool: \<^verbatim>\<open>taskCount_\<close> is the length of the queue; before the
  destructor is called the pool is running and no worker has ended; the destructor has
  joined only ended workers.
\<close>

definition pool_inv :: "'j pool_state \<Rightarrow> bool" where
  "pool_inv s =
     (taskCount (pool s) = length (taskQueue (pool s)) \<and>
      (destruct s = NotCalled \<longrightarrow> isRunning (pool s) \<and> \<not> some_ended s) \<and>
      (\<forall>i. destruct s = Joining i \<longrightarrow>
         (\<forall>k<i. k < length (workerThreads s) \<longrightarrow> workerThreads s ! k = Ended)) \<and>
      (destruct s = Returned \<longrightarrow>
         (\<forall>k<length (workerThreads s). workerThreads s ! k = Ended)))"

text \<open>
  \<open>drained T s\<close>: the callables \<open>T\<close> are all still held, and once a worker has ended
  none of them is in the queue any more.
\<close>

definition drained :: "'j multiset \<Rightarrow> 'j pool_state \<Rightarrow> bool" where
  "drained T s = (T \<subseteq># held s \<and> (some_ended s \<longrightarrow> T \<subseteq># called s))"

section \<open>Tasks\<close>

text \<open>
  The objects of the library live in a heap: a \<^verbatim>\<open>TaskImpl\<close> and a scheduler are known by
  their addresses, the indices into the lists \<open>nodes\<close> and \<open>pools\<close> of the state. A
  handle \<^verbatim>\<open>Task<T>\<close> is its \<^verbatim>\<open>impl_\<close>: an address, or \<open>None\<close> for the empty handle. A
  pointer \<^verbatim>\<open>ITaskScheduler*\<close> is an address or \<open>None\<close> for \<^verbatim>\<open>nullptr\<close>.

  A \<^verbatim>\<open>TaskImpl\<close> is a \<^verbatim>\<open>RefCounted\<close>: it is born with \<^verbatim>\<open>refCount\<close> 0, a \<^verbatim>\<open>RefCntAutoPtr\<close>
  that is made to point to it calls \<^verbatim>\<open>AddRef\<close>, one that is destroyed calls \<^verbatim>\<open>Release\<close>, and
  the \<^verbatim>\<open>Release\<close> that brings the count to zero deletes the node. Counted here are the
  pointers of the library: the handle that \<^verbatim>\<open>MakeTaskImpl\<close> returns, the captures \<^verbatim>\<open>self\<close>
  and \<^verbatim>\<open>proxyTask\<close> of the lambdas, the copies of the lambda of \<^verbatim>\<open>Start\<close> (the temporary,
  the one in the queue of a pool, the one in the worker), and the slots of a dependency
  tuple. A client keeps the handle it is given, and a \<^verbatim>\<open>DependencyContext\<close> is not
  destroyed here, so these two kinds of reference are never released. The temporary
  handles that last for one call (the arguments of the callable of a client and of a
  listener) are left out: the tuple or the future holds a reference to the same node
  all through that call.

  With the handle of the client never released, a count can only reach zero while the
  constructor of the node is still running, before \<^verbatim>\<open>MakeTaskImpl\<close> has taken the reference
  of its caller (lemma \<open>Deleted_in_constructor\<close>). The constructor and \<^verbatim>\<open>MakeTaskImpl\<close>
  then go on with a pointer to freed memory. A run ends at the step that deletes, with
  the error \<open>Deleted\<close>.
\<close>

type_synonym addr = nat

text \<open>
  The C++ types a value by the template argument; here a value is either plain or a
  task handle (the value of a \<^verbatim>\<open>Task<Task<U>>\<close>).
\<close>

datatype 'a val = Val 'a | Handle "addr option"

text \<open>
  The listeners that the library and its clients register on the future of a task
  (the lambdas of \<^verbatim>\<open>Task.inl\<close>, each with what it captures):
  \<^item> \<open>ParentReady self i parent\<close>: \<^verbatim>\<open>[spDeps, &tupleEle, parent, self]\<close> of the composite
    constructor of \<open>self\<close>, for the parent in position \<open>i\<close>;
  \<^item> \<open>KeepDeps self\<close>: the empty lambda \<^verbatim>\<open>[spDeps]\<close> that \<open>self\<close> puts on its own future;
  \<^item> \<open>UnwrapOuter proxy\<close> and \<open>UnwrapInner proxy\<close>: the two lambdas \<^verbatim>\<open>[proxyTask]\<close> of
    \<^verbatim>\<open>Unwrap\<close>;
  \<^item> \<open>UserListener tag\<close>: a listener of the client, opaque.
\<close>

datatype callback =
    ParentReady addr nat addr
  | KeepDeps addr
  | UnwrapOuter addr
  | UnwrapInner addr
  | UserListener nat

text \<open>
  \<^verbatim>\<open>functor_\<close>: the callable of the client, or the lambda of the composite constructor
  that calls \<^verbatim>\<open>InvokeFunctionWithTuple\<close> on the dependency tuple. The callable a client
  passes is taken to be non-empty.
\<close>

datatype producer = UserFunctor | DepsThunk

record DependencyContext =
  pendingDependencyCount :: int
  dependencies :: "addr option list"

text \<open>
  \<^verbatim>\<open>TaskImpl<T>\<close>. The \<^verbatim>\<open>DependencyContext\<close> that the composite constructor allocates
  belongs to one node and is kept with it (\<open>None\<close> for a node built without parents).
  The field \<^verbatim>\<open>functor_\<close> is written \<open>functor'\<close>.
  \<^verbatim>\<open>name_\<close> is left out: nothing modelled here reads it.
\<close>

record 'a TaskImpl =
  refCount :: int
  future :: "('a val, callback) Future"
  functor' :: "producer option"
  scheduler :: addr
  isStarted :: bool
  spDeps :: "DependencyContext option"

text \<open>
  A thread is a stack of frames; the head is what the thread does next. A frame names a
  point in a function of the library, between two atomic steps:
  \<^item> \<open>Ctor self parents i\<close>: in the composite constructor of \<open>self\<close>, in
    \<^verbatim>\<open>ForTupleAndArgs\<close>, before the subscription to parent \<open>i\<close>; past the last parent,
    before \<^verbatim>\<open>MakeTaskImpl\<close> wraps the new node into a \<^verbatim>\<open>RefCntAutoPtr\<close>;
  \<^item> \<open>Invoke cb v\<close>: at the call of the listener \<open>cb\<close> with the value \<open>v\<close>;
  \<^item> \<open>Decrement self\<close>: in \<open>ParentReady\<close>, past the store into the tuple, before
    \<^verbatim>\<open>--spDeps->pendingDependencyCount == 0\<close>;
  \<^item> \<open>KeepAlive self\<close>: in \<open>ParentReady\<close>, the count was seen at zero, before
    \<^verbatim>\<open>self->future_.InvokeOnValueAvailable([spDeps]...)\<close>;
  \<^item> \<open>StartMark self\<close> and \<open>StartSchedule self\<close>: in \<^verbatim>\<open>TaskImpl::Start\<close>, before
    \<^verbatim>\<open>MarkAsStarted()\<close> and before \<^verbatim>\<open>scheduler_->Schedule(...)\<close>;
  \<^item> \<open>Drop a\<close>: at the destructor of a \<^verbatim>\<open>RefCntAutoPtr\<close> that points to \<open>a\<close>: the capture of
    a listener that has been called, of the temporary lambda of \<^verbatim>\<open>Start\<close> when
    \<^verbatim>\<open>Schedule\<close> has returned, of the \<^verbatim>\<open>functor\<close> of a worker at the end of the turn of
    its loop;
  \<^item> \<open>Drain a\<close>: in \<^verbatim>\<open>CallAllValueListener\<close> of the future of \<open>a\<close>, at the head of the loop;
  \<^item> \<open>WorkerLoop p\<close>: in \<^verbatim>\<open>WorkerThreadRoutine\<close> of the pool \<open>p\<close>, at the head of the loop;
  \<^item> \<open>CallFunctor self\<close>: in the lambda that \<^verbatim>\<open>Start\<close> scheduled, at
    \<^verbatim>\<open>self->functor_()\<close>;
  \<^item> \<open>SetResult self v\<close>: in the same lambda, at \<^verbatim>\<open>self->future_.SetValue(v)\<close>.
\<close>

datatype 'a frame =
    Ctor addr "addr option list" nat
  | Invoke callback "'a val"
  | Decrement addr
  | KeepAlive addr
  | StartMark addr
  | StartSchedule addr
  | Drop addr
  | Drain addr
  | WorkerLoop addr
  | CallFunctor addr
  | SetResult addr "'a val"

record 'a system =
  nodes :: "'a TaskImpl list"
  pools :: "addr ParallelTaskScheduler list"
  threads :: "'a frame list list"
  gDefaultTaskScheduler :: "addr option"

definition init :: "'a system" where
  "init = \<lparr>nodes = [], pools = [], threads = [], gDefaultTaskScheduler = None\<rparr>"

subsection \<open>Updates of the state\<close>

definition set_future :: "addr \<Rightarrow> ('a val, callback) Future \<Rightarrow> 'a system \<Rightarrow> 'a system" where
  "set_future a f s = s\<lparr>nodes := (nodes s)[a := (nodes s ! a)\<lparr>future := f\<rparr>]\<rparr>"

definition set_deps :: "addr \<Rightarrow> DependencyContext \<Rightarrow> 'a system \<Rightarrow> 'a system" where
  "set_deps a d s = s\<lparr>nodes := (nodes s)[a := (nodes s ! a)\<lparr>spDeps := Some d\<rparr>]\<rparr>"

definition set_node :: "addr \<Rightarrow> 'a TaskImpl \<Rightarrow> 'a system \<Rightarrow> 'a system" where
  "set_node a n s = s\<lparr>nodes := (nodes s)[a := n]\<rparr>"

definition set_pool :: "addr \<Rightarrow> addr ParallelTaskScheduler \<Rightarrow> 'a system \<Rightarrow> 'a system" where
  "set_pool p q s = s\<lparr>pools := (pools s)[p := q]\<rparr>"

definition set_stack :: "nat \<Rightarrow> 'a frame list \<Rightarrow> 'a system \<Rightarrow> 'a system" where
  "set_stack k st s = s\<lparr>threads := (threads s)[k := st]\<rparr>"

definition spawn :: "'a frame list \<Rightarrow> 'a system \<Rightarrow> 'a system" where
  "spawn st s = s\<lparr>threads := threads s @ [st]\<rparr>"

definition alloc :: "'a TaskImpl \<Rightarrow> 'a system \<Rightarrow> 'a system" where
  "alloc n s = s\<lparr>nodes := nodes s @ [n]\<rparr>"

subsection \<open>Pieces of the library\<close>

definition deref :: "'a system \<Rightarrow> addr option \<Rightarrow> error + addr" where
  "deref s h =
     (case h of
        None \<Rightarrow> Inl NullPointer
      | Some a \<Rightarrow> if a < length (nodes s) then Inr a else Inl Dangling)"

text \<open>
  \<^verbatim>\<open>if (scheduler == nullptr) { scheduler = gDefaultTaskScheduler; assert(scheduler != nullptr); }\<close>
  followed by the use of \<^verbatim>\<open>*scheduler\<close>.
\<close>

definition resolve :: "'a system \<Rightarrow> addr option \<Rightarrow> error + addr" where
  "resolve s sch =
     (case (case sch of None \<Rightarrow> gDefaultTaskScheduler s | Some p \<Rightarrow> Some p) of
        None \<Rightarrow> Inl NoScheduler
      | Some p \<Rightarrow> if p < length (pools s) then Inr p else Inl Dangling)"

text \<open>The constructor \<^verbatim>\<open>TaskImpl(Functor&&, ITaskScheduler&)\<close>.\<close>

definition leaf :: "producer option \<Rightarrow> addr \<Rightarrow> 'a TaskImpl" where
  "leaf f p =
     \<lparr>refCount = 0, future = Future_default, functor' = f, scheduler = p, isStarted = False,
      spDeps = None\<rparr>"

text \<open>
  The constructor \<^verbatim>\<open>TaskImpl(Functor&&, ITaskScheduler&, ParentTasks*...)\<close> up to the
  call of \<^verbatim>\<open>ForTupleAndArgs\<close>: the count is the number of parents, the tuple is empty.
\<close>

definition composite :: "addr \<Rightarrow> nat \<Rightarrow> 'a TaskImpl" where
  "composite p kNumberOfParents =
     \<lparr>refCount = 0, future = Future_default, functor' = Some DepsThunk, scheduler = p,
      isStarted = False,
      spDeps = Some \<lparr>pendingDependencyCount = int kNumberOfParents,
                     dependencies = replicate kNumberOfParents None\<rparr>\<rparr>"

definition MarkAsStarted :: "addr \<Rightarrow> 'a TaskImpl \<Rightarrow> error + 'a TaskImpl" where
  "MarkAsStarted a n = (if isStarted n then Inl (AlreadyStarted a) else Inr (n\<lparr>isStarted := True\<rparr>))"

text \<open>
  \<^verbatim>\<open>RefCounted::AddRef\<close> and \<^verbatim>\<open>RefCounted::Release\<close> on a node; \<open>a\<close> is the address of the
  node. \<^verbatim>\<open>Delete(this)\<close> ends the run.
\<close>

definition AddRef :: "'a TaskImpl \<Rightarrow> error + 'a TaskImpl" where
  "AddRef n =
     (if \<not> refCount n \<ge> 0 then Inl BadRefCount else Inr (n\<lparr>refCount := refCount n + 1\<rparr>))"

definition Release :: "addr \<Rightarrow> 'a TaskImpl \<Rightarrow> error + 'a TaskImpl" where
  "Release a n =
     (if \<not> refCount n > 0 then Inl BadRefCount
      else if refCount n - 1 = 0 then Inl (Deleted a)
      else Inr (n\<lparr>refCount := refCount n - 1\<rparr>))"

text \<open>
  A \<^verbatim>\<open>RefCntAutoPtr\<close> is made to point to the node at \<open>a\<close>, by its constructor from a
  pointer or by its copy constructor; a \<^verbatim>\<open>RefCntAutoPtr\<close> that points to the node at \<open>a\<close>
  is destroyed.
\<close>

definition add_ref :: "addr \<Rightarrow> 'a system \<Rightarrow> error + 'a system" where
  "add_ref a s =
     (if \<not> a < length (nodes s) then Inl Dangling
      else case AddRef (nodes s ! a) of
        Inl e \<Rightarrow> Inl e
      | Inr n \<Rightarrow> Inr (set_node a n s))"

definition release :: "addr \<Rightarrow> 'a system \<Rightarrow> error + 'a system" where
  "release a s =
     (if \<not> a < length (nodes s) then Inl Dangling
      else case Release a (nodes s ! a) of
        Inl e \<Rightarrow> Inl e
      | Inr n \<Rightarrow> Inr (set_node a n s))"

text \<open>
  \<^verbatim>\<open>RefCntAutoPtr::operator=(Type* ref)\<close> on a pointer that holds \<open>old\<close>, for a \<open>p\<close> that is
  not null: \<^verbatim>\<open>if (ref_ != ref) { Release(); ref_ = ref; AddRef(); }\<close>. Here are the two
  counts; the caller writes the pointer.
\<close>

definition assign :: "addr option \<Rightarrow> addr \<Rightarrow> 'a system \<Rightarrow> error + 'a system" where
  "assign old p s =
     (if old = Some p then Inr s
      else case (case old of None \<Rightarrow> Inr s | Some a \<Rightarrow> release a s) of
        Inl e \<Rightarrow> Inl e
      | Inr s1 \<Rightarrow> add_ref p s1)"

text \<open>The nodes to which the \<^verbatim>\<open>RefCntAutoPtr\<close>s point that a listener captures.\<close>

fun captured :: "callback \<Rightarrow> addr list" where
  "captured (ParentReady self i parent) = [self]"
| "captured (KeepDeps self) = []"
| "captured (UnwrapOuter proxyTask) = [proxyTask]"
| "captured (UnwrapInner proxyTask) = [proxyTask]"
| "captured (UserListener tag) = []"

text \<open>
  \<^verbatim>\<open>InvokeOnValueAvailable(cb)\<close> on the future of the node \<open>a\<close>: the locked section, and
  the frames of what the calling thread does next. When the future is Ready these are
  the call of the listener and then the end of the function, where the local \<^verbatim>\<open>callback\<close>
  is destroyed and with it what the listener captured; when the listener was queued
  there is nothing to do.
\<close>

definition subscribe ::
  "addr \<Rightarrow> callback \<Rightarrow> 'a system \<Rightarrow> error + ('a system \<times> 'a frame list)" where
  "subscribe a cb s =
     (case Subscribe_locked cb (future (nodes s ! a)) of
        (f', None) \<Rightarrow> Inr (set_future a f' s, [])
      | (f', Some callback) \<Rightarrow>
          (case GetValueInternal f' of
             Inl e \<Rightarrow> Inl e
           | Inr v \<Rightarrow>
               Inr (set_future a f' s, Invoke callback v # map Drop (captured callback))))"

text \<open>
  \<^verbatim>\<open>MakeTaskImpl\<close>:
  \<^verbatim>\<open>return RefCntAutoPtr<ResultTaskType>(new ResultTaskType(functor, scheduler, parentTasks...))\<close>.
  The node is allocated with \<^verbatim>\<open>refCount\<close> 0 and its constructor runs; the
  \<^verbatim>\<open>RefCntAutoPtr\<close> takes the reference of the caller when the constructor has returned.
  Without parents the first constructor runs, which shares the node with nobody, and
  the reference is taken at once. With parents the second constructor runs; its loop
  over the parents is left to a new thread of the model, and that thread takes the
  reference of the caller at its last step, the one of \<open>Ctor self parentTasks i\<close> with
  \<open>i\<close> past the last parent.
\<close>

definition MakeTaskImpl ::
  "producer option \<Rightarrow> addr \<Rightarrow> addr option list \<Rightarrow> 'a system \<Rightarrow> error + 'a system" where
  "MakeTaskImpl f p parentTasks s =
     (if parentTasks = [] then
        (case AddRef (leaf f p) of
           Inl e \<Rightarrow> Inl e
         | Inr n \<Rightarrow> Inr (alloc n s))
      else Inr (spawn [Ctor (length (nodes s)) parentTasks 0]
                  (alloc (composite p (length parentTasks)) s)))"

definition MakeTask :: "addr option \<Rightarrow> addr option list \<Rightarrow> 'a system \<Rightarrow> error + 'a system" where
  "MakeTask sch parentTasks s =
     (case resolve s sch of
        Inl e \<Rightarrow> Inl e
      | Inr p \<Rightarrow> MakeTaskImpl (Some UserFunctor) p parentTasks s)"

definition GetScheduler :: "'a system \<Rightarrow> addr option \<Rightarrow> error + addr" where
  "GetScheduler s h =
     (case deref s h of Inl e \<Rightarrow> Inl e | Inr a \<Rightarrow> Inr (scheduler (nodes s ! a)))"

definition Then :: "addr option \<Rightarrow> addr option \<Rightarrow> 'a system \<Rightarrow> error + 'a system" where
  "Then h sch s =
     (case sch of
        None \<Rightarrow>
          (case GetScheduler s h of
             Inl e \<Rightarrow> Inl e
           | Inr p \<Rightarrow> MakeTask (Some p) [h] s)
      | Some p \<Rightarrow> MakeTask (Some p) [h] s)"

text \<open>
  \<^verbatim>\<open>Unwrap\<close>. The local \<^verbatim>\<open>proxyTask\<close> is made by \<^verbatim>\<open>MakeTaskImpl\<close> without parents and with
  an empty producer, then marked as started; the lambda \<^verbatim>\<open>[proxyTask]\<close> holds a copy of
  the handle, which is a second reference. The handle that is returned is the local
  one.
\<close>

definition Unwrap :: "addr option \<Rightarrow> addr option \<Rightarrow> 'a system \<Rightarrow> error + 'a system" where
  "Unwrap h sch s =
     (case resolve s sch of
        Inl e \<Rightarrow> Inl e
      | Inr p \<Rightarrow>
          (case AddRef (leaf None p) of
             Inl e \<Rightarrow> Inl e
           | Inr impl \<Rightarrow>
               (case MarkAsStarted (length (nodes s)) impl of
                  Inl e \<Rightarrow> Inl e
                | Inr marked \<Rightarrow>
                    (case deref s h of
                       Inl e \<Rightarrow> Inl e
                     | Inr x \<Rightarrow>
                         (case AddRef marked of
                            Inl e \<Rightarrow> Inl e
                          | Inr proxyTask \<Rightarrow>
                              (case subscribe x (UnwrapOuter (length (nodes s)))
                                      (alloc proxyTask s) of
                                 Inl e \<Rightarrow> Inl e
                               | Inr (s', fs) \<Rightarrow> Inr (spawn fs s')))))))"

definition Unwrap0 :: "addr option \<Rightarrow> 'a system \<Rightarrow> error + 'a system" where
  "Unwrap0 h s =
     (case GetScheduler s h of
        Inl e \<Rightarrow> Inl e
      | Inr p \<Rightarrow> Unwrap h (Some p) s)"

definition MakeTaskAndStart :: "addr option \<Rightarrow> 'a system \<Rightarrow> error + 'a system" where
  "MakeTaskAndStart sch s =
     (case resolve s sch of
        Inl e \<Rightarrow> Inl e
      | Inr p \<Rightarrow>
          (case MakeTask (Some p) [] s of
             Inl e \<Rightarrow> Inl e
           | Inr s' \<Rightarrow> Inr (spawn [StartMark (length (nodes s))] s')))"

text \<open>
  The branch of the constructor of \<^verbatim>\<open>Task\<close> for a value, entered from
  \<^verbatim>\<open>MakeTaskFromValue\<close>, which uses \<^verbatim>\<open>*scheduler\<close> without a test: \<^verbatim>\<open>MakeTaskImpl\<close> without
  parents and with an empty producer, \<^verbatim>\<open>MarkAsStarted\<close>, \<^verbatim>\<open>SetValue\<close>. The loop of
  \<^verbatim>\<open>CallAllValueListener\<close> inside \<^verbatim>\<open>SetValue\<close> is left to a new thread of the model.
\<close>

definition MakeTaskFromValue :: "'a val \<Rightarrow> addr option \<Rightarrow> 'a system \<Rightarrow> error + 'a system" where
  "MakeTaskFromValue v sch s =
     (case sch of
        None \<Rightarrow> Inl NullPointer
      | Some p \<Rightarrow>
          if \<not> p < length (pools s) then Inl Dangling
          else
            (case AddRef (leaf None p) of
               Inl e \<Rightarrow> Inl e
             | Inr made \<Rightarrow>
                 (case MarkAsStarted (length (nodes s)) made of
                    Inl e \<Rightarrow> Inl e
                  | Inr impl \<Rightarrow>
                      (case SetValue_locked v (future impl) of
                         Inl e \<Rightarrow> Inl e
                       | Inr f \<Rightarrow>
                           Inr (spawn [Drain (length (nodes s))]
                                  (alloc (impl\<lparr>future := f\<rparr>) s))))))"

text \<open>\<^verbatim>\<open>Task::Start\<close>: \<^verbatim>\<open>impl_->Start()\<close>, whose steps a new thread takes.\<close>

definition Start :: "addr option \<Rightarrow> 'a system \<Rightarrow> error + 'a system" where
  "Start h s =
     (case deref s h of
        Inl e \<Rightarrow> Inl e
      | Inr a \<Rightarrow> Inr (spawn [StartMark a] s))"

text \<open>A client registers a listener of its own on the future of a task.\<close>

definition Subscribe :: "addr option \<Rightarrow> nat \<Rightarrow> 'a system \<Rightarrow> error + 'a system" where
  "Subscribe h tag s =
     (case deref s h of
        Inl e \<Rightarrow> Inl e
      | Inr a \<Rightarrow>
          (case subscribe a (UserListener tag) s of
             Inl e \<Rightarrow> Inl e
           | Inr (s', fs) \<Rightarrow> Inr (spawn fs s')))"

text \<open>\<^verbatim>\<open>ParallelTaskScheduler(numThreads)\<close> with its worker threads.\<close>

definition NewPool :: "nat \<Rightarrow> 'a system \<Rightarrow> error + 'a system" where
  "NewPool numThreads s =
     (if \<not> numThreads > 0 then Inl NoThreads
      else Inr (s\<lparr>pools := pools s @ [\<lparr>taskQueue = [], taskCount = 0, isRunning = True\<rparr>],
                  threads := threads s @ replicate numThreads [WorkerLoop (length (pools s))]\<rparr>))"

subsection \<open>The steps\<close>

text \<open>
  The calls of a client. Each runs up to its first point of interaction with other
  threads; what remains is left to a new thread.
\<close>

datatype 'a call =
    CNewPool nat
  | CSetDefaultTaskScheduler "addr option"
  | CMakeTask "addr option" "addr option list"
  | CMakeTaskAndStart "addr option"
  | CMakeTaskFromValue "'a val" "addr option"
  | CStart "addr option"
  | CThen "addr option" "addr option"
  | CUnwrap "addr option" "addr option"
  | CUnwrap0 "addr option"
  | CSubscribe "addr option" nat

fun perform :: "'a call \<Rightarrow> 'a system \<Rightarrow> error + 'a system" where
  "perform (CNewPool n) s = NewPool n s"
| "perform (CSetDefaultTaskScheduler p) s = Inr (s\<lparr>gDefaultTaskScheduler := p\<rparr>)"
| "perform (CMakeTask sch ps) s = MakeTask sch ps s"
| "perform (CMakeTaskAndStart sch) s = MakeTaskAndStart sch s"
| "perform (CMakeTaskFromValue v sch) s = MakeTaskFromValue v sch s"
| "perform (CStart h) s = Start h s"
| "perform (CThen h sch) s = Then h sch s"
| "perform (CUnwrap h sch) s = Unwrap h sch s"
| "perform (CUnwrap0 h) s = Unwrap0 h s"
| "perform (CSubscribe h tag) s = Subscribe h tag s"

text \<open>
  One atomic step of the thread \<open>k\<close> whose stack is \<open>fr # rest\<close>. A step is one section
  under a mutex, one atomic operation on a count, or a write of one field. The \<^verbatim>\<open>AddRef\<close>
  of a lambda that is made as the argument of a call belongs to the step of that call,
  and a \<^verbatim>\<open>Release\<close> is a step of its own right after the call that precedes it in the
  code: a count goes up no earlier here than in the code and goes down no later.

  \<^item> \<open>Ctor\<close>: \<^verbatim>\<open>parent->GetFuture().InvokeOnValueAvailable([..., self = RefCntAutoPtr(this)]...)\<close>
    for the parent \<open>i\<close>; past the last parent, the \<^verbatim>\<open>RefCntAutoPtr\<close> of \<^verbatim>\<open>MakeTaskImpl\<close>.
  \<^item> \<open>Invoke (ParentReady ...)\<close>: \<^verbatim>\<open>tupleEle = parent\<close>.
  \<^item> \<open>Decrement\<close>: \<^verbatim>\<open>--spDeps->pendingDependencyCount == 0\<close>.
  \<^item> \<open>KeepAlive\<close>: \<^verbatim>\<open>self->future_.InvokeOnValueAvailable([spDeps]...)\<close>; then \<^verbatim>\<open>self->Start()\<close>.
  \<^item> \<open>StartMark\<close>: \<^verbatim>\<open>MarkAsStarted()\<close>.
  \<^item> \<open>StartSchedule\<close>: \<^verbatim>\<open>scheduler_->Schedule([self = RefCntAutoPtr(this)]...)\<close>, where
    \<^verbatim>\<open>taskQueue_.push(functor)\<close> copies the lambda; the temporary is destroyed after the
    call.
  \<^item> \<open>Drop\<close>: the destructor of a \<^verbatim>\<open>RefCntAutoPtr\<close>.
  \<^item> \<open>Invoke (UnwrapOuter ...)\<close>:
    \<^verbatim>\<open>innerTask.GetFuture().InvokeOnValueAvailable([proxyTask]...)\<close>.
  \<^item> \<open>Invoke (UnwrapInner ...)\<close> and \<open>SetResult\<close>: the locked section of \<^verbatim>\<open>SetValue\<close>; then
    \<^verbatim>\<open>CallAllValueListener\<close>.
  \<^item> \<open>Drain\<close>: the locked section of the loop of \<^verbatim>\<open>CallAllValueListener\<close>; then the call of
    the listener that was taken, and its destruction (in the code, when \<^verbatim>\<open>cb\<close> is
    assigned the next listener or the function returns).
  \<^item> \<open>WorkerLoop\<close>: the locked section of \<^verbatim>\<open>WorkerThreadRoutine\<close>, where
    \<^verbatim>\<open>functor = taskQueue_.front()\<close> copies the lambda and \<^verbatim>\<open>taskQueue_.pop()\<close> destroys
    the one in the queue; then the call of \<^verbatim>\<open>functor\<close> and, at the end of the turn of
    the loop, its destruction.
\<close>

fun step_frame :: "'a frame \<Rightarrow> 'a frame list \<Rightarrow> nat \<Rightarrow> 'a system \<Rightarrow> error + 'a system" where
  "step_frame (Ctor self ps i) rest k s =
     (if \<not> i < length ps then
        (case add_ref self s of
           Inl e \<Rightarrow> Inl e
         | Inr s1 \<Rightarrow> Inr (set_stack k rest s1))
      else case deref s (ps ! i) of
        Inl e \<Rightarrow> Inl e
      | Inr parent \<Rightarrow>
          (case add_ref self s of
             Inl e \<Rightarrow> Inl e
           | Inr s1 \<Rightarrow>
               (case subscribe parent (ParentReady self i parent) s1 of
                  Inl e \<Rightarrow> Inl e
                | Inr (s', fs) \<Rightarrow> Inr (set_stack k (fs @ Ctor self ps (i + 1) # rest) s'))))"
| "step_frame (Invoke (ParentReady self i parent) v) rest k s =
     (if \<not> self < length (nodes s) then Inl Dangling
      else case spDeps (nodes s ! self) of
        None \<Rightarrow> Inl Dangling
      | Some d \<Rightarrow>
          if \<not> i < length (dependencies d) then Inl Dangling
          else case assign (dependencies d ! i) parent s of
            Inl e \<Rightarrow> Inl e
          | Inr s1 \<Rightarrow>
              Inr (set_stack k (Decrement self # rest)
                     (set_deps self (d\<lparr>dependencies := (dependencies d)[i := Some parent]\<rparr>) s1)))"
| "step_frame (Decrement self) rest k s =
     (if \<not> self < length (nodes s) then Inl Dangling
      else case spDeps (nodes s ! self) of
        None \<Rightarrow> Inl Dangling
      | Some d \<Rightarrow>
          (let n = pendingDependencyCount d - 1;
               s' = set_deps self (d\<lparr>pendingDependencyCount := n\<rparr>) s
           in if n = 0 then Inr (set_stack k (KeepAlive self # rest) s')
              else Inr (set_stack k rest s')))"
| "step_frame (KeepAlive self) rest k s =
     (if \<not> self < length (nodes s) then Inl Dangling
      else case subscribe self (KeepDeps self) s of
        Inl e \<Rightarrow> Inl e
      | Inr (s', fs) \<Rightarrow> Inr (set_stack k (fs @ StartMark self # rest) s'))"
| "step_frame (StartMark self) rest k s =
     (if \<not> self < length (nodes s) then Inl Dangling
      else case MarkAsStarted self (nodes s ! self) of
        Inl e \<Rightarrow> Inl e
      | Inr n \<Rightarrow> Inr (set_stack k (StartSchedule self # rest) (set_node self n s)))"
| "step_frame (StartSchedule self) rest k s =
     (if \<not> self < length (nodes s) then Inl Dangling
      else let p = scheduler (nodes s ! self)
           in if \<not> p < length (pools s) then Inl Dangling
              else case add_ref self s of
                Inl e \<Rightarrow> Inl e
              | Inr s1 \<Rightarrow>
                  (case add_ref self s1 of
                     Inl e \<Rightarrow> Inl e
                   | Inr s2 \<Rightarrow>
                       Inr (set_stack k (Drop self # rest)
                              (set_pool p (Schedule (Some self) (pools s ! p)) s2))))"
| "step_frame (Drop a) rest k s =
     (case release a s of
        Inl e \<Rightarrow> Inl e
      | Inr s1 \<Rightarrow> Inr (set_stack k rest s1))"
| "step_frame (Invoke (KeepDeps self) v) rest k s = Inr (set_stack k rest s)"
| "step_frame (Invoke (UserListener tag) v) rest k s = Inr (set_stack k rest s)"
| "step_frame (Invoke (UnwrapOuter proxyTask) v) rest k s =
     (case v of
        Val x \<Rightarrow> Inl IllTyped
      | Handle innerTask \<Rightarrow>
          (case deref s innerTask of
             Inl e \<Rightarrow> Inl e
           | Inr y \<Rightarrow>
               (case add_ref proxyTask s of
                  Inl e \<Rightarrow> Inl e
                | Inr s1 \<Rightarrow>
                    (case subscribe y (UnwrapInner proxyTask) s1 of
                       Inl e \<Rightarrow> Inl e
                     | Inr (s', fs) \<Rightarrow> Inr (set_stack k (fs @ rest) s')))))"
| "step_frame (Invoke (UnwrapInner proxyTask) v) rest k s =
     (if \<not> proxyTask < length (nodes s) then Inl Dangling
      else case SetValue_locked v (future (nodes s ! proxyTask)) of
        Inl e \<Rightarrow> Inl e
      | Inr f \<Rightarrow> Inr (set_stack k (Drain proxyTask # rest) (set_future proxyTask f s)))"
| "step_frame (Drain a) rest k s =
     (if \<not> a < length (nodes s) then Inl Dangling
      else case Pop_locked (future (nodes s ! a)) of
        None \<Rightarrow> Inr (set_stack k rest s)
      | Some (f, cb) \<Rightarrow>
          (case GetValueInternal f of
             Inl e \<Rightarrow> Inl e
           | Inr v \<Rightarrow>
               Inr (set_stack k (Invoke cb v # map Drop (captured cb) @ Drain a # rest)
                      (set_future a f s))))"
| "step_frame (WorkerLoop p) rest k s =
     (if \<not> p < length (pools s) then Inl Dangling
      else case WorkerThreadRoutine_locked (pools s ! p) of
        Inl e \<Rightarrow> Inl e
      | Inr Wait \<Rightarrow> Inl NotEnabled
      | Inr Break \<Rightarrow> Inr (set_stack k rest s)
      | Inr (Took q f) \<Rightarrow>
          (case f of
             None \<Rightarrow> Inl NullFunctor
           | Some self \<Rightarrow>
               (case add_ref self s of
                  Inl e \<Rightarrow> Inl e
                | Inr s1 \<Rightarrow>
                    (case release self s1 of
                       Inl e \<Rightarrow> Inl e
                     | Inr s2 \<Rightarrow>
                         Inr (set_stack k (CallFunctor self # Drop self # WorkerLoop p # rest)
                                (set_pool p q s2))))))"
| "step_frame (CallFunctor self) rest k s = Inl NotEnabled"
| "step_frame (SetResult self v) rest k s =
     (if \<not> self < length (nodes s) then Inl Dangling
      else case SetValue_locked v (future (nodes s ! self)) of
        Inl e \<Rightarrow> Inl e
      | Inr f \<Rightarrow> Inr (set_stack k (Drain self # rest) (set_future self f s)))"

definition step :: "nat \<Rightarrow> 'a system \<Rightarrow> error + 'a system" where
  "step k s =
     (if \<not> k < length (threads s) then Inl NotEnabled
      else case threads s ! k of
        [] \<Rightarrow> Inl NotEnabled
      | fr # rest \<Rightarrow> step_frame fr rest k s)"

text \<open>
  \<^verbatim>\<open>self->functor_()\<close> returns. The callable is code of the client, so its result \<open>v\<close>
  comes with the action; an empty \<^verbatim>\<open>functor_\<close> throws instead.
\<close>

definition return :: "nat \<Rightarrow> 'a val \<Rightarrow> 'a system \<Rightarrow> error + 'a system" where
  "return k v s =
     (if \<not> k < length (threads s) then Inl NotEnabled
      else case threads s ! k of
        CallFunctor self # rest \<Rightarrow>
          (if \<not> self < length (nodes s) then Inl Dangling
           else case functor' (nodes s ! self) of
             None \<Rightarrow> Inl BadFunctionCall
           | Some f \<Rightarrow> Inr (set_stack k (SetResult self v # rest) s))
      | _ \<Rightarrow> Inl NotEnabled)"

datatype 'a action = User "'a call" | Step nat | Return nat "'a val"

fun exec :: "'a action \<Rightarrow> 'a system \<Rightarrow> error + 'a system" where
  "exec (User c) s = perform c s"
| "exec (Step k) s = step k s"
| "exec (Return k v) s = return k v s"

text \<open>A schedule is a list of actions; \<open>run\<close> follows it from a state.\<close>

fun run :: "'a action list \<Rightarrow> 'a system \<Rightarrow> error + 'a system" where
  "run [] s = Inr s"
| "run (a # as) s = (case exec a s of Inl e \<Rightarrow> Inl e | Inr s' \<Rightarrow> run as s')"

subsection \<open>Observations of a state\<close>

definition fvalue :: "'a system \<Rightarrow> addr \<Rightarrow> 'a val option" where
  "fvalue s a = value' (future (nodes s ! a))"

definition listeners :: "'a system \<Rightarrow> addr \<Rightarrow> callback list" where
  "listeners s a = onValueAvailable (future (nodes s ! a))"

definition deps_of :: "'a system \<Rightarrow> addr \<Rightarrow> DependencyContext option" where
  "deps_of s a = spDeps (nodes s ! a)"

definition started :: "'a system \<Rightarrow> addr \<Rightarrow> bool" where
  "started s a = isStarted (nodes s ! a)"

definition sched_of :: "'a system \<Rightarrow> addr \<Rightarrow> addr" where
  "sched_of s a = scheduler (nodes s ! a)"

definition functor_of :: "'a system \<Rightarrow> addr \<Rightarrow> producer option" where
  "functor_of s a = functor' (nodes s ! a)"

definition refs :: "'a system \<Rightarrow> addr \<Rightarrow> int" where
  "refs s a = refCount (nodes s ! a)"

text \<open>The ways in which a step changes a node.\<close>

definition set_started :: "addr \<Rightarrow> 'a system \<Rightarrow> 'a system" where
  "set_started a s = set_node a ((nodes s ! a)\<lparr>isStarted := True\<rparr>) s"

definition set_refs :: "addr \<Rightarrow> int \<Rightarrow> 'a system \<Rightarrow> 'a system" where
  "set_refs a n s = set_node a ((nodes s ! a)\<lparr>refCount := n\<rparr>) s"

text \<open>Several counts are set, one after the other.\<close>

definition recount :: "(addr \<times> int) list \<Rightarrow> 'a system \<Rightarrow> 'a system" where
  "recount ops s = fold (\<lambda>(a, n). set_refs a n) ops s"

definition set_listeners :: "addr \<Rightarrow> callback list \<Rightarrow> 'a system \<Rightarrow> 'a system" where
  "set_listeners a q s = set_future a ((future (nodes s ! a))\<lparr>onValueAvailable := q\<rparr>) s"

definition write_value :: "addr \<Rightarrow> 'a val \<Rightarrow> 'a system \<Rightarrow> 'a system" where
  "write_value a v s = set_future a ((future (nodes s ! a))\<lparr>value' := Some v\<rparr>) s"

text \<open>
  Sums over all the frames of all the threads, and over all the queued listeners of
  all the nodes.
\<close>

definition total :: "('a frame \<Rightarrow> int) \<Rightarrow> 'a system \<Rightarrow> int" where
  "total g s = (\<Sum>st\<leftarrow>threads s. \<Sum>fr\<leftarrow>st. g fr)"

definition totalq :: "(callback \<Rightarrow> int) \<Rightarrow> 'a system \<Rightarrow> int" where
  "totalq g s = (\<Sum>n\<leftarrow>nodes s. \<Sum>cb\<leftarrow>onValueAvailable (future n). g cb)"

text \<open>
  The node of \<^verbatim>\<open>MakeTaskImpl\<close> without parents, with the reference of its caller. The node
  of \<^verbatim>\<open>Unwrap\<close> once marked as started, with the references of the local handle and of
  the lambda. The node of \<^verbatim>\<open>MakeTaskFromValue\<close> once marked as started and set.
\<close>

definition leaf_node :: "producer option \<Rightarrow> addr \<Rightarrow> 'a TaskImpl" where
  "leaf_node f p =
     \<lparr>refCount = 1, future = Future_default, functor' = f, scheduler = p, isStarted = False,
      spDeps = None\<rparr>"

definition proxy_node :: "addr \<Rightarrow> 'a TaskImpl" where
  "proxy_node p =
     \<lparr>refCount = 2, future = Future_default, functor' = None, scheduler = p, isStarted = True,
      spDeps = None\<rparr>"

definition lifted_node :: "'a val \<Rightarrow> addr \<Rightarrow> 'a TaskImpl" where
  "lifted_node v p =
     \<lparr>refCount = 1, future = \<lparr>value' = Some v, onValueAvailable = []\<rparr>, functor' = None,
      scheduler = p, isStarted = True, spDeps = None\<rparr>"

definition new_pool :: "nat \<Rightarrow> 'a system \<Rightarrow> 'a system" where
  "new_pool n s =
     s\<lparr>pools := pools s @ [\<lparr>taskQueue = [], taskCount = 0, isRunning = True\<rparr>],
       threads := threads s @ replicate n [WorkerLoop (length (pools s))]\<rparr>"

text \<open>The parents that a call passes to the composite constructor, if it reaches it.\<close>

fun parents_of :: "'a call \<Rightarrow> addr option list" where
  "parents_of (CMakeTask sch ps) = ps"
| "parents_of (CThen h sch) = [h]"
| "parents_of c = []"

subsection \<open>Well-formed states\<close>

text \<open>The nodes that a listener and a frame name.\<close>

fun cb_nodes :: "callback \<Rightarrow> addr list" where
  "cb_nodes (ParentReady self i parent) = [self, parent]"
| "cb_nodes (KeepDeps self) = [self]"
| "cb_nodes (UnwrapOuter proxy) = [proxy]"
| "cb_nodes (UnwrapInner proxy) = [proxy]"
| "cb_nodes (UserListener tag) = []"

fun frame_nodes :: "'a frame \<Rightarrow> addr list" where
  "frame_nodes (Ctor self ps i) = [self]"
| "frame_nodes (Invoke cb v) = cb_nodes cb"
| "frame_nodes (Decrement self) = [self]"
| "frame_nodes (KeepAlive self) = [self]"
| "frame_nodes (StartMark self) = [self]"
| "frame_nodes (StartSchedule self) = [self]"
| "frame_nodes (Drop a) = [a]"
| "frame_nodes (Drain a) = [a]"
| "frame_nodes (WorkerLoop p) = []"
| "frame_nodes (CallFunctor self) = [self]"
| "frame_nodes (SetResult self v) = [self]"

text \<open>The number of slots of the dependency tuple of a node.\<close>

definition arity :: "'a system \<Rightarrow> addr \<Rightarrow> nat option" where
  "arity s a = map_option (\<lambda>d. length (dependencies d)) (deps_of s a)"

fun ctor_ok :: "'a system \<Rightarrow> 'a frame \<Rightarrow> bool" where
  "ctor_ok s (Ctor self ps i) = (i \<le> length ps \<and> arity s self = Some (length ps))"
| "ctor_ok s (Invoke (ParentReady self i parent) v) = (\<exists>n. arity s self = Some n \<and> i < n)"
| "ctor_ok s fr = True"

fun slot_ok :: "'a system \<Rightarrow> callback \<Rightarrow> bool" where
  "slot_ok s (ParentReady self i parent) = (\<exists>n. arity s self = Some n \<and> i < n)"
| "slot_ok s cb = True"

text \<open>
  A state is well formed when the nodes named in frames, in queued listeners and in the
  queues of the pools exist, and the constructor frames and the listeners of a
  constructor fit the tuple of their node.
\<close>

definition frame_wf :: "'a system \<Rightarrow> 'a frame \<Rightarrow> bool" where
  "frame_wf s fr = ((\<forall>a\<in>set (frame_nodes fr). a < length (nodes s)) \<and> ctor_ok s fr)"

definition cb_wf :: "'a system \<Rightarrow> callback \<Rightarrow> bool" where
  "cb_wf s cb = ((\<forall>a\<in>set (cb_nodes cb). a < length (nodes s)) \<and> slot_ok s cb)"

definition wf_threads :: "'a system \<Rightarrow> bool" where
  "wf_threads s = (\<forall>k<length (threads s). \<forall>fr\<in>set (threads s ! k). frame_wf s fr)"

definition wf_queues :: "'a system \<Rightarrow> bool" where
  "wf_queues s = (\<forall>a<length (nodes s). \<forall>cb\<in>set (listeners s a). cb_wf s cb)"

definition wf_pools :: "'a system \<Rightarrow> bool" where
  "wf_pools s =
     (\<forall>p<length (pools s). \<forall>f\<in>set (taskQueue (pools s ! p)).
        \<exists>c<length (nodes s). f = Some c)"

definition wf :: "'a system \<Rightarrow> bool" where
  "wf s = (wf_threads s \<and> wf_queues s \<and> wf_pools s)"

text \<open>Every node is bound to a scheduler that exists.\<close>

definition scheds_ok :: "'a system \<Rightarrow> bool" where
  "scheds_ok s = (\<forall>a<length (nodes s). sched_of s a < length (pools s))"

text \<open>
  \<open>extends s s'\<close>: what a later state \<open>s'\<close> keeps of \<open>s\<close>. Nodes, pools and threads are
  only added; a node keeps its scheduler, its producer and the shape of its tuple; a
  started node stays started; a value, once stored, stays.
\<close>

definition extends :: "'a system \<Rightarrow> 'a system \<Rightarrow> bool" where
  "extends s s' =
     (length (nodes s) \<le> length (nodes s') \<and>
      length (pools s) \<le> length (pools s') \<and>
      length (threads s) \<le> length (threads s') \<and>
      (\<forall>a<length (nodes s).
         sched_of s' a = sched_of s a \<and>
         functor_of s' a = functor_of s a \<and>
         arity s' a = arity s a \<and>
         (started s a \<longrightarrow> started s' a) \<and>
         (\<forall>v. fvalue s a = Some v \<longrightarrow> fvalue s' a = Some v)))"


subsection \<open>Counting\<close>

text \<open>
  \<open>tally g h\<close> counts the frames by \<open>g\<close> and the queued listeners by \<open>h\<close>. The two
  fit when a listener counts the same in a queue and when it has been taken from it:
  then it is a frame \<open>Invoke\<close> above the frames \<open>Drop\<close> of what it captured.
\<close>

definition tally :: "('a frame \<Rightarrow> int) \<Rightarrow> (callback \<Rightarrow> int) \<Rightarrow> 'a system \<Rightarrow> int" where
  "tally g h s = total g s + totalq h s"

definition fits :: "('a frame \<Rightarrow> int) \<Rightarrow> (callback \<Rightarrow> int) \<Rightarrow> bool" where
  "fits g h = (\<forall>cb v. g (Invoke cb v) + (\<Sum>b\<leftarrow>captured cb. g (Drop b)) = h cb)"

subsection \<open>The references to a node\<close>

text \<open>
  The pointers to the node \<open>a\<close> that the model counts: the frames \<open>Drop a\<close>, the captures
  of the queued listeners, the lambdas in the queues of the pools, the slots of the
  tuples. The handle of the client counts for every node, and a constructor frame of \<open>a\<close>
  takes it back: the client has it once the constructor has returned.
\<close>

fun owed :: "addr \<Rightarrow> 'a frame \<Rightarrow> int" where
  "owed a (Drop b) = (if b = a then 1 else 0)"
| "owed a (Ctor self ps i) = (if self = a then - 1 else 0)"
| "owed a fr = 0"

definition captures :: "addr \<Rightarrow> callback \<Rightarrow> int" where
  "captures a cb = (\<Sum>b\<leftarrow>captured cb. if b = a then 1 else 0)"

definition pooled :: "addr \<Rightarrow> 'a system \<Rightarrow> int" where
  "pooled a s = (\<Sum>q\<leftarrow>pools s. \<Sum>f\<leftarrow>taskQueue q. if f = Some a then 1 else 0)"

definition holds :: "addr \<Rightarrow> DependencyContext option \<Rightarrow> int" where
  "holds a c =
     (case c of None \<Rightarrow> 0 | Some d \<Rightarrow> \<Sum>x\<leftarrow>dependencies d. if x = Some a then 1 else 0)"

definition slotted :: "addr \<Rightarrow> 'a system \<Rightarrow> int" where
  "slotted a s = (\<Sum>n\<leftarrow>nodes s. holds a (spDeps n))"

text \<open>
  The count of every node is the number of the pointers to it; and a tuple holds
  nodes that exist.
\<close>

definition accounted :: "'a system \<Rightarrow> bool" where
  "accounted s =
     ((\<forall>a<length (nodes s).
         refs s a = 1 + tally (owed a) (captures a) s + pooled a s + slotted a s) \<and>
      (\<forall>a. length (nodes s) \<le> a \<longrightarrow> slotted a s = 0))"

subsection \<open>What a schedule does to one node\<close>

definition count_of :: "'a system \<Rightarrow> addr \<Rightarrow> int" where
  "count_of s c = (case deps_of s c of None \<Rightarrow> 0 | Some d \<Rightarrow> pendingDependencyCount d)"

definition slot_of :: "'a system \<Rightarrow> addr \<Rightarrow> nat \<Rightarrow> addr option" where
  "slot_of s c i = (case deps_of s c of None \<Rightarrow> None | Some d \<Rightarrow> dependencies d ! i)"










section \<open>Properties of the future\<close>

lemma CallAllValueListener_ready:
  "value' f = Some v \<Longrightarrow>
   CallAllValueListener f =
     Inr (f\<lparr>onValueAvailable := []\<rparr>, map (\<lambda>c. (c, v)) (onValueAvailable f))"
proof (induction "onValueAvailable f" arbitrary: f)
  case Nil
  then show ?case
    by (subst CallAllValueListener.simps) (simp add: Pop_locked_def)
next
  case (Cons c cs)
  from Cons(2) have q: "onValueAvailable f = c # cs" by simp
  let ?f' = "f\<lparr>onValueAvailable := cs\<rparr>"
  have "CallAllValueListener ?f' =
          Inr (?f'\<lparr>onValueAvailable := []\<rparr>, map (\<lambda>c. (c, v)) (onValueAvailable ?f'))"
    using Cons(1) [of ?f'] Cons(3) by simp
  then show ?case
    using q Cons(3)
    by (subst CallAllValueListener.simps)
       (simp add: Pop_locked_def GetValueInternal_def)
qed

lemma SetValue_empty:
  "value' f = None \<Longrightarrow>
   SetValue v f =
     Inr (\<lparr>value' = Some v, onValueAvailable = []\<rparr>, map (\<lambda>c. (c, v)) (onValueAvailable f))"
  by (simp add: SetValue_def SetValue_locked_def CallAllValueListener_ready)

lemma SetValue_ready: "value' f \<noteq> None \<Longrightarrow> SetValue v f = Inl FutureAlreadySet"
  by (simp add: SetValue_def SetValue_locked_def)

lemma Subscribe_ready:
  "value' f = Some v \<Longrightarrow> InvokeOnValueAvailable (Some c) f = Inr (f, [(c, v)])"
  by (simp add: InvokeOnValueAvailable_def Subscribe_locked_def IsReadyInternal_def
      GetValueInternal_def)

lemma Subscribe_empty:
  "value' f = None \<Longrightarrow>
   InvokeOnValueAvailable (Some c) f =
     Inr (f\<lparr>onValueAvailable := onValueAvailable f @ [c]\<rparr>, [])"
  by (simp add: InvokeOnValueAvailable_def Subscribe_locked_def IsReadyInternal_def)

lemma apply_op_value:
  assumes "apply_op op f = Inr (f', calls)" and "value' f = Some v"
  shows "value' f' = Some v"
proof (cases op)
  case (OpSet w)
  with assms show ?thesis by (simp add: SetValue_ready)
next
  case (OpSubscribe c)
  with assms show ?thesis by (simp add: Subscribe_ready)
qed

lemma run_ops_value:
  "run_ops ops f = Inr (f', calls) \<Longrightarrow> value' f = Some v \<Longrightarrow> value' f' = Some v"
proof (induction ops arbitrary: f calls)
  case Nil
  then show ?case by simp
next
  case (Cons op ops)
  then show ?case
    by (auto split: sum.splits prod.splits dest: apply_op_value)
qed

lemma evolves_value: "evolves f f' \<Longrightarrow> value' f = Some v \<Longrightarrow> value' f' = Some v"
  by (induction rule: evolves.induct) (auto dest: apply_op_value)


lemma run_ops_no_second_set:
  "run_ops ops f = Inr (f', calls) \<Longrightarrow> value' f = Some v \<Longrightarrow> filter is_set ops = []"
proof (induction ops arbitrary: f calls)
  case Nil
  then show ?case by simp
next
  case (Cons op ops)
  from Cons.prems obtain g cs rest where
    step: "apply_op op f = Inr (g, cs)" and tail: "run_ops ops g = Inr (f', rest)"
    by (auto split: sum.splits prod.splits)
  from step Cons.prems(2) have "\<not> is_set op"
    by (cases op) (simp_all add: SetValue_ready)
  moreover from step Cons.prems(2) have "value' g = Some v"
    by (rule apply_op_value)
  ultimately show ?case
    using Cons.IH [OF tail] by simp
qed

lemma wait_for_final: "pred d \<Longrightarrow> wait_for pred ws d"
  by (induction ws) auto

lemma wait_for_none: "\<forall>s\<in>set ws. \<not> pred s \<Longrightarrow> wait_for pred ws d = pred d"
  by (induction ws) auto

lemma run_ops_subscribe_empty:
  "run_ops (map OpSubscribe cs) \<lparr>value' = None, onValueAvailable = q\<rparr> =
     Inr (\<lparr>value' = None, onValueAvailable = q @ cs\<rparr>, map (\<lambda>c. []) cs)"
proof (induction cs arbitrary: q)
  case Nil
  then show ?case by simp
next
  case (Cons c cs)
  show ?case
    using Cons.IH [of "q @ [c]"] by (simp add: Subscribe_empty)
qed

lemma run_ops_subscribe_ready:
  "value' f = Some v \<Longrightarrow>
   run_ops (map OpSubscribe cs) f = Inr (f, map (\<lambda>c. [(c, v)]) cs)"
  by (induction cs) (simp_all add: Subscribe_ready)

lemma run_ops_append:
  "run_ops (xs @ ys) f =
     (case run_ops xs f of
        Inl e \<Rightarrow> Inl e
      | Inr (f', calls) \<Rightarrow>
          (case run_ops ys f' of
             Inl e \<Rightarrow> Inl e
           | Inr (f'', rest) \<Rightarrow> Inr (f'', calls @ rest)))"
  by (induction xs arbitrary: f) (auto split: sum.splits prod.splits)

text \<open>
  Claim C3. A future goes from Empty to Ready at most once: when \<open>SetValue v1\<close> has
  succeeded, the future was Empty before and holds \<open>v1\<close> after; a further \<open>SetValue v2\<close>
  fails the assertion; and whatever operations run afterwards without failing, none of
  them is a set and the stored value is still \<open>v1\<close>.
\<close>

theorem SetValue_single_assignment:
  assumes "SetValue v1 f = Inr (f1, calls)"
  shows "value' f = None \<and> value' f1 = Some v1 \<and>
         SetValue v2 f1 = Inl FutureAlreadySet \<and>
         (\<forall>ops f2 cs. run_ops ops f1 = Inr (f2, cs) \<longrightarrow>
            value' f2 = Some v1 \<and> filter is_set ops = [])"
proof -
  from assms have empty: "value' f = None"
    by (cases "value' f") (simp_all add: SetValue_ready)
  with assms have f1: "value' f1 = Some v1"
    by (auto simp: SetValue_empty)
  then have "SetValue v2 f1 = Inl FutureAlreadySet"
    by (simp add: SetValue_ready)
  with empty f1 show ?thesis
    by (blast intro: run_ops_value run_ops_no_second_set)
qed

theorem SetValue_single_assignment_witness:
  "SetValue (1::nat) \<lparr>value' = None, onValueAvailable = [CHR ''a'']\<rparr> =
     Inr (\<lparr>value' = Some 1, onValueAvailable = []\<rparr>, [(CHR ''a'', 1)]) \<and>
   SetValue (2::nat) \<lparr>value' = Some 1, onValueAvailable = ([]::char list)\<rparr> =
     Inl FutureAlreadySet \<and>
   run_ops [OpSubscribe (CHR ''b'')] \<lparr>value' = Some (1::nat), onValueAvailable = []\<rparr> =
     Inr (\<lparr>value' = Some 1, onValueAvailable = []\<rparr>, [[(CHR ''b'', 1)]]) \<and>
   filter is_set [OpSubscribe (CHR ''b'') :: (nat, char) future_op] = []"
  using SetValue_single_assignment
    [of 1 "\<lparr>value' = None, onValueAvailable = [CHR ''a'']\<rparr>"
        "\<lparr>value' = Some (1::nat), onValueAvailable = []\<rparr>" "[(CHR ''a'', 1)]" 2]
  by (simp add: SetValue_empty Subscribe_ready)

text \<open>
  Claim C4. On a fresh future, register the listeners \<open>before\<close>, set the value \<open>v\<close>,
  then register the listeners \<open>after\<close>. No registration before the set calls
  anything; the set calls exactly the listeners \<open>before\<close>, in the order of their
  registration, each with \<open>v\<close>; each registration after the set calls its own listener at
  once with \<open>v\<close>, inside the registering call; and the queue is empty at the end. So each
  listener is called once for each time it was registered, and none is left behind.
\<close>

theorem listeners_called_once_in_order:
  "run_ops (map OpSubscribe before @ OpSet v # map OpSubscribe after) Future_default =
     Inr (\<lparr>value' = Some v, onValueAvailable = []\<rparr>,
          map (\<lambda>c. []) before @ map (\<lambda>c. (c, v)) before # map (\<lambda>c. [(c, v)]) after)"
proof -
  let ?ready = "\<lparr>value' = Some v, onValueAvailable = []\<rparr> :: ('a, 'b) Future"
  have tail: "run_ops (OpSet v # map OpSubscribe after)
                \<lparr>value' = None, onValueAvailable = before\<rparr> =
              Inr (?ready, map (\<lambda>c. (c, v)) before # map (\<lambda>c. [(c, v)]) after)"
    using run_ops_subscribe_ready [of ?ready v after]
    by (simp add: SetValue_empty)
  have head: "run_ops (map OpSubscribe before) \<lparr>value' = None, onValueAvailable = []\<rparr> =
              Inr (\<lparr>value' = None, onValueAvailable = before\<rparr> :: ('a, 'b) Future,
                   map (\<lambda>c. []) before)"
    using run_ops_subscribe_empty [of before "[]"] by simp
  show ?thesis
    by (simp only: run_ops_append Future_default_def head tail sum.case prod.case)
qed

text \<open>
  Claim C8. The states seen at the wake-ups precede the state at the deadline. Then
  \<open>WaitFor\<close> answers \<open>kTimeout\<close> exactly when the future is Empty at the deadline. The call
  returns a status only, so the future is then as it was at the deadline, Empty; a
  \<open>SetValue\<close> on it succeeds, and every later wait on a state that follows sees Ready and
  every later \<open>GetValue\<close> returns the value.
\<close>

theorem WaitFor_timeout_iff_empty:
  assumes "\<forall>s\<in>set wakeups. evolves s atDeadline"
  shows "(WaitFor wakeups atDeadline = kTimeout) = (value' atDeadline = None) \<and>
         (WaitFor wakeups atDeadline = kTimeout \<longrightarrow>
            SetValue v atDeadline =
              Inr (\<lparr>value' = Some v, onValueAvailable = []\<rparr>,
                   map (\<lambda>c. (c, v)) (onValueAvailable atDeadline)) \<and>
            (\<forall>later d. evolves \<lparr>value' = Some v, onValueAvailable = []\<rparr> d \<longrightarrow>
               WaitFor later d = kReady \<and> GetValue d = Some v))"
proof -
  have iff: "(WaitFor wakeups atDeadline = kTimeout) = (value' atDeadline = None)"
  proof (cases "value' atDeadline")
    case None
    have "\<forall>s\<in>set wakeups. \<not> value' s \<noteq> None"
    proof
      fix s assume "s \<in> set wakeups"
      with assms have "evolves s atDeadline" by simp
      with None show "\<not> value' s \<noteq> None"
        by (cases "value' s") (auto dest: evolves_value)
    qed
    then show ?thesis
      using None wait_for_none [of wakeups "\<lambda>f. value' f \<noteq> None" atDeadline]
      by (simp add: WaitFor_def)
  next
    case (Some w)
    then show ?thesis
      using wait_for_final [of "\<lambda>f. value' f \<noteq> None" atDeadline wakeups]
      by (simp add: WaitFor_def)
  qed
  have later: "WaitFor later d = kReady \<and> GetValue d = Some v"
    if "evolves \<lparr>value' = Some v, onValueAvailable = []\<rparr> d" for later d
  proof -
    from that have "value' d = Some v"
      by (rule evolves_value) simp
    then show ?thesis
      using wait_for_final [of "\<lambda>f. value' f \<noteq> None" d later]
      by (simp add: WaitFor_def GetValue_def)
  qed
  show ?thesis
    using iff later by (auto simp: SetValue_empty)
qed

theorem WaitFor_timeout_iff_empty_witness:
  "evolves (Future_default :: (nat, char) Future)
     \<lparr>value' = None, onValueAvailable = [CHR ''a'']\<rparr> \<and>
   WaitFor [Future_default] \<lparr>value' = (None :: nat option), onValueAvailable = [CHR ''a'']\<rparr>
     = kTimeout \<and>
   SetValue (5::nat) \<lparr>value' = None, onValueAvailable = [CHR ''a'']\<rparr> =
     Inr (\<lparr>value' = Some 5, onValueAvailable = []\<rparr>, [(CHR ''a'', 5)]) \<and>
   evolves \<lparr>value' = Some (5::nat), onValueAvailable = ([]::char list)\<rparr>
     \<lparr>value' = Some 5, onValueAvailable = []\<rparr> \<and>
   WaitFor [] \<lparr>value' = Some (5::nat), onValueAvailable = ([]::char list)\<rparr> = kReady \<and>
   GetValue \<lparr>value' = Some (5::nat), onValueAvailable = ([]::char list)\<rparr> = Some 5"
proof -
  have e: "evolves (Future_default :: (nat, char) Future)
             \<lparr>value' = None, onValueAvailable = [CHR ''a'']\<rparr>"
    by (rule evolves_step [OF evolves_refl, of "OpSubscribe (CHR ''a'')" _ _ "[]"])
       (simp add: Subscribe_empty Future_default_def)
  have h: "\<forall>s\<in>set [Future_default :: (nat, char) Future].
             evolves s \<lparr>value' = None, onValueAvailable = [CHR ''a'']\<rparr>"
    using e by simp
  note t = WaitFor_timeout_iff_empty [OF h, of 5]
  have timeout:
    "WaitFor [Future_default] \<lparr>value' = (None :: nat option), onValueAvailable = [CHR ''a'']\<rparr>
       = kTimeout"
    by (simp add: WaitFor_def Future_default_def)
  from t timeout have set:
    "SetValue (5::nat) \<lparr>value' = None, onValueAvailable = [CHR ''a'']\<rparr> =
       Inr (\<lparr>value' = Some 5, onValueAvailable = []\<rparr>, [(CHR ''a'', 5)])"
    by (simp add: SetValue_empty)
  from t timeout have later:
    "evolves \<lparr>value' = Some (5::nat), onValueAvailable = ([]::char list)\<rparr> d \<Longrightarrow>
       WaitFor ws d = kReady \<and> GetValue d = Some 5" for ws d
    by blast
  show ?thesis
    using e timeout set later [OF evolves_refl, of "[]"] evolves_refl by blast
qed

section \<open>Properties of the pool\<close>

lemma sum_list_in_call_update:
  "k < length ws \<Longrightarrow>
   (\<Sum>w\<leftarrow>ws[k := w']. in_call w) + in_call (ws ! k) = (\<Sum>w\<leftarrow>ws. in_call w) + in_call w'"
proof (induction ws arbitrary: k)
  case Nil
  then show ?case by simp
next
  case (Cons w ws)
  then show ?case by (cases k) (simp_all add: ac_simps)
qed

lemma queued_append: "queued (q @ [f]) = queued q + (case f of None \<Rightarrow> {#} | Some j \<Rightarrow> {#j#})"
  by (induction q rule: queued.induct) (auto split: option.splits)

lemma called_take:
  assumes "k < length (workerThreads s)" "workerThreads s ! k = AtLoopHead"
  shows "called (s\<lparr>workerThreads := (workerThreads s)[k := w]\<rparr>) = called s + in_call w"
  using sum_list_in_call_update [OF assms(1), of w] assms(2)
  by (simp add: called_def)

lemma called_finish:
  assumes "k < length (workerThreads s)" "workerThreads s ! k = InFunctor j"
  shows "called (s\<lparr>workerThreads := (workerThreads s)[k := AtLoopHead],
                  completed := completed s @ [j]\<rparr>) = called s"
  using sum_list_in_call_update [OF assms(1), of AtLoopHead] assms(2)
  by (simp add: called_def)

lemma worker_step_cases:
  assumes "worker_step k s = Inr s'"
  obtains
    (break) "k < length (workerThreads s)" "workerThreads s ! k = AtLoopHead"
      "\<not> isRunning (pool s)" "taskCount (pool s) = 0"
      "s' = s\<lparr>workerThreads := (workerThreads s)[k := Ended]\<rparr>"
  | (took) j rest where "k < length (workerThreads s)" "workerThreads s ! k = AtLoopHead"
      "taskQueue (pool s) = Some j # rest"
      "s' = s\<lparr>pool := (pool s)\<lparr>taskCount := taskCount (pool s) - 1,
                                          taskQueue := rest\<rparr>,
               workerThreads := (workerThreads s)[k := InFunctor j]\<rparr>"
  | (finish) j where "k < length (workerThreads s)" "workerThreads s ! k = InFunctor j"
      "s' = s\<lparr>workerThreads := (workerThreads s)[k := AtLoopHead],
               completed := completed s @ [j]\<rparr>"
  using assms
  by (auto simp: worker_step_def WorkerThreadRoutine_locked_def
      split: if_splits worker.splits sum.splits taken.splits option.splits list.splits)


lemma destructor_step_cases:
  assumes "destructor_step s = Inr s'"
  obtains
    (start) "destruct s = NotCalled"
      "s' = s\<lparr>pool := (pool s)\<lparr>isRunning := False\<rparr>, destruct := Joining 0\<rparr>"
  | (join) i where "destruct s = Joining i" "i < length (workerThreads s)"
      "workerThreads s ! i = Ended" "s' = s\<lparr>destruct := Joining (i + 1)\<rparr>"
  | (ret) i where "destruct s = Joining i" "\<not> i < length (workerThreads s)"
      "s' = s\<lparr>destruct := Returned\<rparr>"
  using assms
  by (auto simp: destructor_step_def split: destructor.splits if_splits)

lemma some_ended_update:
  assumes "k < length (workerThreads s)"
  shows "some_ended (s\<lparr>workerThreads := (workerThreads s)[k := w]\<rparr>) \<longleftrightarrow>
         w = Ended \<or> (\<exists>i<length (workerThreads s). i \<noteq> k \<and> workerThreads s ! i = Ended)"
  using assms by (auto simp: some_ended_def nth_list_update)

lemma pool_inv_step:
  assumes "pool_step a s = Inr s'" and "pool_inv s"
  shows "pool_inv s'"
proof (cases a)
  case (DoSchedule f)
  with assms show ?thesis
    by (auto simp: pool_inv_def Schedule_def some_ended_def split: if_splits)
next
  case (Worker k)
  with assms have w: "worker_step k s = Inr s'" by simp
  from w show ?thesis
  proof (cases rule: worker_step_cases)
    case break
    with assms(2) show ?thesis
      by (auto simp: pool_inv_def nth_list_update some_ended_update)
  next
    case (took j rest)
    with assms(2) show ?thesis
      by (auto simp: pool_inv_def nth_list_update some_ended_def)
  next
    case (finish j)
    with assms(2) show ?thesis
      by (auto simp: pool_inv_def nth_list_update some_ended_def)
  qed
next
  case Destructor
  with assms have d: "destructor_step s = Inr s'" by simp
  from d show ?thesis
  proof (cases rule: destructor_step_cases)
    case start
    with assms(2) show ?thesis by (auto simp: pool_inv_def some_ended_def)
  next
    case (join i)
    with assms(2) show ?thesis by (auto simp: pool_inv_def less_Suc_eq some_ended_def)
  next
    case (ret i)
    with assms(2) show ?thesis
      by (auto simp: pool_inv_def some_ended_def)
  qed
qed

lemma held_step:
  assumes "pool_step a s = Inr s'"
  shows "held s' = held s + (case a of DoSchedule (Some j) \<Rightarrow> {#j#} | _ \<Rightarrow> {#})"
proof (cases a)
  case (DoSchedule f)
  with assms show ?thesis
    by (auto simp: held_def called_def Schedule_def queued_append split: if_splits option.splits)
next
  case (Worker k)
  with assms have w: "worker_step k s = Inr s'" by simp
  from w show ?thesis
  proof (cases rule: worker_step_cases)
    case break
    then show ?thesis
      using Worker called_take [of k s Ended] by (simp add: held_def)
  next
    case (took j rest)
    then show ?thesis
      using Worker sum_list_in_call_update [of k "workerThreads s" "InFunctor j"]
      by (simp add: held_def called_def)
  next
    case (finish j)
    then show ?thesis
      using Worker called_finish [of k s j] by (simp add: held_def)
  qed
next
  case Destructor
  with assms have d: "destructor_step s = Inr s'" by simp
  from d show ?thesis
    using Destructor
    by (cases rule: destructor_step_cases) (simp_all add: held_def called_def)
qed

lemma called_step:
  assumes "pool_step a s = Inr s'"
  shows "called s \<subseteq># called s'"
proof (cases a)
  case (DoSchedule f)
  with assms show ?thesis
    by (auto simp: called_def split: if_splits)
next
  case (Worker k)
  with assms have w: "worker_step k s = Inr s'" by simp
  from w show ?thesis
  proof (cases rule: worker_step_cases)
    case break
    then show ?thesis
      using called_take [of k s Ended] by simp
  next
    case (took j rest)
    then show ?thesis
      using sum_list_in_call_update [of k "workerThreads s" "InFunctor j"]
      by (simp add: called_def)
  next
    case (finish j)
    then show ?thesis
      using called_finish [of k s j] by simp
  qed
next
  case Destructor
  with assms have d: "destructor_step s = Inr s'" by simp
  from d show ?thesis
    by (cases rule: destructor_step_cases) (simp_all add: called_def)
qed

lemma some_ended_step:
  assumes that: "pool_inv s"
    and "pool_step a s = Inr s'" and "some_ended s'" and "\<not> some_ended s"
  shows "taskQueue (pool s) = [] \<and> called s' = called s"
proof (cases a)
  case (DoSchedule f)
  with assms show ?thesis
    by (auto simp: some_ended_def split: if_splits)
next
  case (Worker k)
  with assms have w: "worker_step k s = Inr s'" by simp
  from w show ?thesis
  proof (cases rule: worker_step_cases)
    case break
    then show ?thesis
      using that called_take [of k s Ended] by (simp add: pool_inv_def)
  next
    case (took j rest)
    with assms(3,4) show ?thesis
      by (auto simp: some_ended_def nth_list_update split: if_splits)
  next
    case (finish j)
    with assms(3,4) show ?thesis
      by (auto simp: some_ended_def nth_list_update split: if_splits)
  qed
next
  case Destructor
  with assms have d: "destructor_step s = Inr s'" by simp
  from d assms(3,4) show ?thesis
    by (cases rule: destructor_step_cases) (simp_all add: some_ended_def)
qed

lemma drained_step:
  assumes "pool_step a s = Inr s'" and "pool_inv s" and "drained T s"
  shows "drained T s'"
proof -
  have h: "T \<subseteq># held s'"
    using assms(3) held_step [OF assms(1)] by (simp add: drained_def subset_mset.add_increasing2)
  have c: "T \<subseteq># called s'" if e: "some_ended s'"
  proof (cases "some_ended s")
    case True
    with assms(3) have "T \<subseteq># called s" by (simp add: drained_def)
    with called_step [OF assms(1)] show ?thesis by (rule subset_mset.order_trans [rotated])
  next
    case False
    from some_ended_step [OF assms(2) assms(1) e False]
    have "held s = called s'" by (simp add: held_def)
    with assms(3) show ?thesis by (simp add: drained_def)
  qed
  from h c show ?thesis by (simp add: drained_def)
qed

lemma sum_list_replicate_empty: "sum_list (replicate n ({#} :: 'a multiset)) = {#}"
  by (induction n) simp_all

lemma pool_run_append:
  "pool_run (xs @ ys) s =
     (case pool_run xs s of Inl e \<Rightarrow> Inl e | Inr s' \<Rightarrow> pool_run ys s')"
  by (induction xs arbitrary: s) (auto split: sum.splits)

lemma pool_inv_run: "pool_run as s = Inr s' \<Longrightarrow> pool_inv s \<Longrightarrow> pool_inv s'"
  by (induction as arbitrary: s) (auto split: sum.splits dest: pool_inv_step)

lemma submitted_Cons:
  "mset (submitted (a # as)) =
     (case a of DoSchedule (Some j) \<Rightarrow> {#j#} | _ \<Rightarrow> {#}) + mset (submitted as)"
  by (cases a) (auto split: option.splits)

lemma held_run: "pool_run as s = Inr s' \<Longrightarrow> held s' = held s + mset (submitted as)"
proof (induction as arbitrary: s)
  case Nil
  then show ?case by simp
next
  case (Cons a as)
  from Cons.prems obtain t where
    step: "pool_step a s = Inr t" and rest: "pool_run as t = Inr s'"
    by (auto split: sum.splits)
  show ?case
    using Cons.IH [OF rest] held_step [OF step]
    by (simp only: submitted_Cons) simp
qed

lemma drained_run:
  "pool_run as s = Inr s' \<Longrightarrow> pool_inv s \<Longrightarrow> drained T s \<Longrightarrow> drained T s'"
proof (induction as arbitrary: s)
  case Nil
  then show ?case by simp
next
  case (Cons a as)
  from Cons.prems(1) obtain t where
    step: "pool_step a s = Inr t" and rest: "pool_run as t = Inr s'"
    by (auto split: sum.splits)
  show ?case
    using Cons.IH [OF rest pool_inv_step [OF step Cons.prems(2)]
        drained_step [OF step Cons.prems(2,3)]] .
qed

lemma workers_step:
  "pool_step a s = Inr s' \<Longrightarrow> length (workerThreads s') = length (workerThreads s)"
proof (cases a)
  case (DoSchedule f)
  then show "pool_step a s = Inr s' \<Longrightarrow> ?thesis" by (auto split: if_splits)
next
  case (Worker k)
  then show "pool_step a s = Inr s' \<Longrightarrow> ?thesis"
    by (auto elim!: worker_step_cases)
next
  case Destructor
  then show "pool_step a s = Inr s' \<Longrightarrow> ?thesis"
    by (auto elim!: destructor_step_cases)
qed

lemma workers_run:
  "pool_run as s = Inr s' \<Longrightarrow> length (workerThreads s') = length (workerThreads s)"
  by (induction as arbitrary: s) (auto split: sum.splits dest: workers_step)

lemma not_destructed_step:
  "pool_step a s = Inr s' \<Longrightarrow> a \<noteq> Destructor \<Longrightarrow> destruct s' = destruct s"
  by (cases a) (auto split: if_splits elim!: worker_step_cases)

lemma not_destructed_run:
  "pool_run as s = Inr s' \<Longrightarrow> Destructor \<notin> set as \<Longrightarrow> destruct s' = destruct s"
  by (induction as arbitrary: s) (auto split: sum.splits dest: not_destructed_step)

lemma pool_inv_pool_with: "pool_inv (pool_with n)"
  by (simp add: pool_inv_def pool_with_def some_ended_def)

lemma held_pool_with: "held (pool_with n) = {#}"
  by (simp add: held_def called_def pool_with_def sum_list_replicate_empty)

text \<open>
  A pool with at least one worker drains. Take any run of the pool from its
  construction in which the destructor is first entered after the steps \<open>before\<close>, and
  which ends with the destructor returned. Then every callable submitted in \<open>before\<close>
  has returned, as often as it was submitted.
\<close>

lemma pool_with_workers_drains:
  assumes run: "pool_run (before @ Destructor # after) (pool_with n) = Inr s"
    and first: "Destructor \<notin> set before"
    and returned: "destruct s = Returned"
    and workers: "0 < n"
  shows "mset (submitted before) \<subseteq># mset (completed s)"
proof -
  from run obtain s1 where
    pre: "pool_run before (pool_with n) = Inr s1" and
    post: "pool_run (Destructor # after) s1 = Inr s"
    by (auto simp: pool_run_append split: sum.splits)
  have inv1: "pool_inv s1"
    using pool_inv_run [OF pre pool_inv_pool_with] .
  have held1: "held s1 = mset (submitted before)"
    using held_run [OF pre] by (simp add: held_pool_with)
  have "destruct s1 = NotCalled"
    using not_destructed_run [OF pre first] by (simp add: pool_with_def)
  with inv1 have "\<not> some_ended s1"
    by (simp add: pool_inv_def)
  then have "drained (mset (submitted before)) s1"
    by (simp add: drained_def held1)
  then have dr: "drained (mset (submitted before)) s"
    using drained_run [OF post inv1] by simp
  have inv: "pool_inv s"
    using pool_inv_run [OF post inv1] .
  have len: "length (workerThreads s) = n"
    using workers_run [OF run] by (simp add: pool_with_def)
  from inv returned have all: "\<forall>k<length (workerThreads s). workerThreads s ! k = Ended"
    by (simp add: pool_inv_def)
  with len workers have "some_ended s"
    by (auto simp: some_ended_def)
  with dr have sub: "mset (submitted before) \<subseteq># called s"
    by (simp add: drained_def)
  from all have "map in_call (workerThreads s) = replicate (length (workerThreads s)) {#}"
    by (auto intro!: nth_equalityI)
  then have "called s = mset (completed s)"
    by (simp add: called_def sum_list_replicate_empty)
  with sub show ?thesis by simp
qed

text \<open>
  Claim C6, at a pool without workers. The constructor without arguments makes as many
  workers as \<^verbatim>\<open>hardware_concurrency()\<close> reports, and accepts zero. A callable is then
  submitted and the pool is destroyed: the destructor returns with the callable still
  in the queue and nothing completed.
\<close>

theorem pool_without_workers_drops:
  "ParallelTaskScheduler_default 0 = Inr (pool_with 0) \<and>
   pool_run [DoSchedule (Some j), Destructor, Destructor] (pool_with 0) =
     Inr \<lparr>pool = \<lparr>taskQueue = [Some j], taskCount = 1, isRunning = False\<rparr>,
          workerThreads = [], destruct = Returned, completed = []\<rparr>"
  by (simp add: ParallelTaskScheduler_default_def pool_with_def Schedule_def
      destructor_step_def)


section \<open>Properties of the tasks\<close>

subsection \<open>What the updates change\<close>

lemmas obs_defs = fvalue_def listeners_def deps_of_def started_def sched_of_def functor_of_def
  refs_def

lemmas upd_defs = set_future_def set_deps_def set_node_def set_pool_def set_stack_def
  spawn_def alloc_def set_listeners_def write_value_def set_started_def new_pool_def set_refs_def

lemma nth_upd: "(xs[i := y]) ! j = (if i = j \<and> i < length xs then y else xs ! j)"
  by (cases "i < length xs") (simp_all add: nth_list_update list_update_beyond)

lemma set_stack_obs [simp]:
  "threads (set_stack k st s) = (threads s)[k := st]"
  "nodes (set_stack k st s) = nodes s"
  "pools (set_stack k st s) = pools s"
  "gDefaultTaskScheduler (set_stack k st s) = gDefaultTaskScheduler s"
  "fvalue (set_stack k st s) = fvalue s"
  "listeners (set_stack k st s) = listeners s"
  "deps_of (set_stack k st s) = deps_of s"
  "started (set_stack k st s) = started s"
  "sched_of (set_stack k st s) = sched_of s"
  "functor_of (set_stack k st s) = functor_of s"
  "refs (set_stack k st s) = refs s"
  by (simp_all add: fun_eq_iff upd_defs obs_defs)

lemma spawn_obs [simp]:
  "threads (spawn st s) = threads s @ [st]"
  "nodes (spawn st s) = nodes s"
  "pools (spawn st s) = pools s"
  "gDefaultTaskScheduler (spawn st s) = gDefaultTaskScheduler s"
  "fvalue (spawn st s) = fvalue s"
  "listeners (spawn st s) = listeners s"
  "deps_of (spawn st s) = deps_of s"
  "started (spawn st s) = started s"
  "sched_of (spawn st s) = sched_of s"
  "functor_of (spawn st s) = functor_of s"
  "refs (spawn st s) = refs s"
  by (simp_all add: fun_eq_iff upd_defs obs_defs)

lemma set_pool_obs [simp]:
  "threads (set_pool p q s) = threads s"
  "nodes (set_pool p q s) = nodes s"
  "pools (set_pool p q s) = (pools s)[p := q]"
  "gDefaultTaskScheduler (set_pool p q s) = gDefaultTaskScheduler s"
  "fvalue (set_pool p q s) = fvalue s"
  "listeners (set_pool p q s) = listeners s"
  "deps_of (set_pool p q s) = deps_of s"
  "started (set_pool p q s) = started s"
  "sched_of (set_pool p q s) = sched_of s"
  "functor_of (set_pool p q s) = functor_of s"
  "refs (set_pool p q s) = refs s"
  by (simp_all add: fun_eq_iff upd_defs obs_defs)

lemma new_pool_obs [simp]:
  "threads (new_pool n s) = threads s @ replicate n [WorkerLoop (length (pools s))]"
  "nodes (new_pool n s) = nodes s"
  "pools (new_pool n s) = pools s @ [\<lparr>taskQueue = [], taskCount = 0, isRunning = True\<rparr>]"
  "gDefaultTaskScheduler (new_pool n s) = gDefaultTaskScheduler s"
  "fvalue (new_pool n s) = fvalue s"
  "listeners (new_pool n s) = listeners s"
  "deps_of (new_pool n s) = deps_of s"
  "started (new_pool n s) = started s"
  "sched_of (new_pool n s) = sched_of s"
  "functor_of (new_pool n s) = functor_of s"
  "refs (new_pool n s) = refs s"
  by (simp_all add: fun_eq_iff upd_defs obs_defs)

lemma default_obs [simp]:
  "fvalue (s\<lparr>gDefaultTaskScheduler := p\<rparr>) = fvalue s"
  "listeners (s\<lparr>gDefaultTaskScheduler := p\<rparr>) = listeners s"
  "deps_of (s\<lparr>gDefaultTaskScheduler := p\<rparr>) = deps_of s"
  "started (s\<lparr>gDefaultTaskScheduler := p\<rparr>) = started s"
  "sched_of (s\<lparr>gDefaultTaskScheduler := p\<rparr>) = sched_of s"
  "functor_of (s\<lparr>gDefaultTaskScheduler := p\<rparr>) = functor_of s"
  "refs (s\<lparr>gDefaultTaskScheduler := p\<rparr>) = refs s"
  by (simp_all add: fun_eq_iff obs_defs)

lemma set_listeners_obs [simp]:
  "threads (set_listeners a q s) = threads s"
  "length (nodes (set_listeners a q s)) = length (nodes s)"
  "pools (set_listeners a q s) = pools s"
  "gDefaultTaskScheduler (set_listeners a q s) = gDefaultTaskScheduler s"
  "fvalue (set_listeners a q s) = fvalue s"
  "deps_of (set_listeners a q s) = deps_of s"
  "started (set_listeners a q s) = started s"
  "sched_of (set_listeners a q s) = sched_of s"
  "functor_of (set_listeners a q s) = functor_of s"
  "refs (set_listeners a q s) = refs s"
  by (auto simp: fun_eq_iff upd_defs obs_defs nth_upd)

lemma set_listeners_listeners [simp]:
  "a < length (nodes s) \<Longrightarrow>
   listeners (set_listeners a q s) b = (if b = a then q else listeners s b)"
  by (simp add: upd_defs obs_defs nth_list_update)

lemma write_value_obs [simp]:
  "threads (write_value a v s) = threads s"
  "length (nodes (write_value a v s)) = length (nodes s)"
  "pools (write_value a v s) = pools s"
  "gDefaultTaskScheduler (write_value a v s) = gDefaultTaskScheduler s"
  "listeners (write_value a v s) = listeners s"
  "deps_of (write_value a v s) = deps_of s"
  "started (write_value a v s) = started s"
  "sched_of (write_value a v s) = sched_of s"
  "functor_of (write_value a v s) = functor_of s"
  "refs (write_value a v s) = refs s"
  by (auto simp: fun_eq_iff upd_defs obs_defs nth_upd)

lemma write_value_fvalue [simp]:
  "a < length (nodes s) \<Longrightarrow>
   fvalue (write_value a v s) b = (if b = a then Some v else fvalue s b)"
  by (simp add: upd_defs obs_defs nth_list_update)

lemma set_deps_obs [simp]:
  "threads (set_deps a d s) = threads s"
  "length (nodes (set_deps a d s)) = length (nodes s)"
  "pools (set_deps a d s) = pools s"
  "gDefaultTaskScheduler (set_deps a d s) = gDefaultTaskScheduler s"
  "fvalue (set_deps a d s) = fvalue s"
  "listeners (set_deps a d s) = listeners s"
  "started (set_deps a d s) = started s"
  "sched_of (set_deps a d s) = sched_of s"
  "functor_of (set_deps a d s) = functor_of s"
  "refs (set_deps a d s) = refs s"
  by (auto simp: fun_eq_iff upd_defs obs_defs nth_upd)

lemma set_deps_deps_of [simp]:
  "a < length (nodes s) \<Longrightarrow>
   deps_of (set_deps a d s) b = (if b = a then Some d else deps_of s b)"
  by (simp add: upd_defs obs_defs nth_list_update)

lemma set_started_obs [simp]:
  "threads (set_started a s) = threads s"
  "length (nodes (set_started a s)) = length (nodes s)"
  "pools (set_started a s) = pools s"
  "gDefaultTaskScheduler (set_started a s) = gDefaultTaskScheduler s"
  "fvalue (set_started a s) = fvalue s"
  "listeners (set_started a s) = listeners s"
  "deps_of (set_started a s) = deps_of s"
  "sched_of (set_started a s) = sched_of s"
  "functor_of (set_started a s) = functor_of s"
  "refs (set_started a s) = refs s"
  by (auto simp: fun_eq_iff upd_defs obs_defs nth_upd)

lemma set_started_started [simp]:
  "a < length (nodes s) \<Longrightarrow> started (set_started a s) b = (b = a \<or> started s b)"
  by (simp add: upd_defs obs_defs nth_list_update)

lemma alloc_obs [simp]:
  "threads (alloc n s) = threads s"
  "length (nodes (alloc n s)) = Suc (length (nodes s))"
  "pools (alloc n s) = pools s"
  "gDefaultTaskScheduler (alloc n s) = gDefaultTaskScheduler s"
  by (simp_all add: upd_defs)

lemma alloc_old [simp]:
  assumes "b < length (nodes s)"
  shows "fvalue (alloc n s) b = fvalue s b"
    "listeners (alloc n s) b = listeners s b"
    "deps_of (alloc n s) b = deps_of s b"
    "started (alloc n s) b = started s b"
    "sched_of (alloc n s) b = sched_of s b"
    "functor_of (alloc n s) b = functor_of s b"
    "refs (alloc n s) b = refs s b"
  using assms by (simp_all add: upd_defs obs_defs nth_append)

lemma alloc_new [simp]:
  "fvalue (alloc n s) (length (nodes s)) = value' (future n)"
  "listeners (alloc n s) (length (nodes s)) = onValueAvailable (future n)"
  "deps_of (alloc n s) (length (nodes s)) = spDeps n"
  "started (alloc n s) (length (nodes s)) = isStarted n"
  "sched_of (alloc n s) (length (nodes s)) = scheduler n"
  "functor_of (alloc n s) (length (nodes s)) = functor' n"
  "refs (alloc n s) (length (nodes s)) = refCount n"
  by (simp_all add: upd_defs obs_defs)

lemma set_refs_obs [simp]:
  "threads (set_refs a n s) = threads s"
  "length (nodes (set_refs a n s)) = length (nodes s)"
  "pools (set_refs a n s) = pools s"
  "gDefaultTaskScheduler (set_refs a n s) = gDefaultTaskScheduler s"
  "fvalue (set_refs a n s) = fvalue s"
  "listeners (set_refs a n s) = listeners s"
  "deps_of (set_refs a n s) = deps_of s"
  "started (set_refs a n s) = started s"
  "sched_of (set_refs a n s) = sched_of s"
  "functor_of (set_refs a n s) = functor_of s"
  by (auto simp: fun_eq_iff upd_defs obs_defs nth_upd)

lemma set_refs_refs [simp]:
  "a < length (nodes s) \<Longrightarrow> refs (set_refs a n s) b = (if b = a then n else refs s b)"
  by (simp add: upd_defs obs_defs nth_list_update)

lemma arity_simps [simp]:
  "arity (set_stack k st s) = arity s"
  "arity (spawn st s) = arity s"
  "arity (set_pool p q s) = arity s"
  "arity (new_pool m s) = arity s"
  "arity (s\<lparr>gDefaultTaskScheduler := p'\<rparr>) = arity s"
  "arity (set_listeners a l s) = arity s"
  "arity (write_value a v s) = arity s"
  "arity (set_started a s) = arity s"
  "arity (set_refs a n s) = arity s"
  by (simp_all add: fun_eq_iff arity_def)

lemma arity_alloc [simp]:
  "b < length (nodes s) \<Longrightarrow> arity (alloc n s) b = arity s b"
  "arity (alloc n s) (length (nodes s)) = map_option (\<lambda>d. length (dependencies d)) (spDeps n)"
  by (simp_all add: arity_def)

lemma arity_set_deps [simp]:
  "a < length (nodes s) \<Longrightarrow>
   arity (set_deps a d s) b = (if b = a then Some (length (dependencies d)) else arity s b)"
  by (simp add: arity_def)

lemma set_refs_same [simp]: "set_refs a (refs s a) s = s"
  by (simp add: upd_defs obs_defs)

lemma set_refs_twice [simp]: "set_refs a n (set_refs a m s) = set_refs a n s"
  by (cases "a < length (nodes s)") (simp_all add: upd_defs list_update_beyond)

lemma recount_simps [simp]:
  "recount [] s = s"
  "recount ((a, n) # ops) s = recount ops (set_refs a n s)"
  "recount (ops @ ops') s = recount ops' (recount ops s)"
  by (simp_all add: recount_def)

lemma recount_obs [simp]:
  "threads (recount ops s) = threads s"
  "length (nodes (recount ops s)) = length (nodes s)"
  "pools (recount ops s) = pools s"
  "gDefaultTaskScheduler (recount ops s) = gDefaultTaskScheduler s"
  "fvalue (recount ops s) = fvalue s"
  "listeners (recount ops s) = listeners s"
  "deps_of (recount ops s) = deps_of s"
  "started (recount ops s) = started s"
  "sched_of (recount ops s) = sched_of s"
  "functor_of (recount ops s) = functor_of s"
  "arity (recount ops s) = arity s"
  by (induction ops arbitrary: s; simp add: split_paired_all)+

text \<open>A count is set before or after another update, with the same result.\<close>

lemma set_refs_commute:
  "set_stack k st (set_refs a n s) = set_refs a n (set_stack k st s)"
  "set_pool p q (set_refs a n s) = set_refs a n (set_pool p q s)"
  "spawn st (set_refs a n s) = set_refs a n (spawn st s)"
  by (simp_all add: upd_defs)

lemma refCount_update_commute:
  "x\<lparr>refCount := n, spDeps := d\<rparr> = x\<lparr>spDeps := d, refCount := n\<rparr>"
  "x\<lparr>refCount := n, future := f\<rparr> = x\<lparr>future := f, refCount := n\<rparr>"
  "x\<lparr>refCount := n, isStarted := b\<rparr> = x\<lparr>isStarted := b, refCount := n\<rparr>"
  by (cases x; simp)+

lemma set_refs_set_deps:
  "set_deps b d (set_refs a n s) = set_refs a n (set_deps b d s)"
proof (cases "a = b")
  case True
  then show ?thesis
    by (cases "a < length (nodes s)")
       (simp_all add: upd_defs list_update_beyond refCount_update_commute)
next
  case False
  then show ?thesis
    by (simp add: upd_defs list_update_swap)
qed

lemma set_refs_set_listeners:
  "set_listeners b l (set_refs a n s) = set_refs a n (set_listeners b l s)"
proof (cases "a = b")
  case True
  then show ?thesis
    by (cases "a < length (nodes s)")
       (simp_all add: upd_defs list_update_beyond refCount_update_commute)
next
  case False
  then show ?thesis
    by (simp add: upd_defs list_update_swap)
qed

lemmas refs_commute = set_refs_commute set_refs_set_deps set_refs_set_listeners

lemma recount_commute:
  "set_stack k st (recount ops s) = recount ops (set_stack k st s)"
  "set_pool p q (recount ops s) = recount ops (set_pool p q s)"
  "set_deps b d (recount ops s) = recount ops (set_deps b d s)"
  "set_listeners b l (recount ops s) = recount ops (set_listeners b l s)"
  "spawn st (recount ops s) = recount ops (spawn st s)"
  by (induction ops arbitrary: s; simp add: split_paired_all refs_commute)+


subsection \<open>The steps, case by case\<close>

lemma set_future_same [simp]: "set_future a (future (nodes s ! a)) s = s"
  by (simp add: set_future_def)

lemma subscribe_eq:
  "subscribe a cb s =
     (case fvalue s a of
        None \<Rightarrow> Inr (set_listeners a (listeners s a @ [cb]) s, [])
      | Some v \<Rightarrow> Inr (s, Invoke cb v # map Drop (captured cb)))"
  by (simp add: subscribe_def Subscribe_locked_def IsReadyInternal_def GetValueInternal_def
      fvalue_def set_listeners_def listeners_def split: option.splits)

lemma subscribe_cases:
  assumes "subscribe a cb s = Inr (s', fs)"
  obtains (queued) "fvalue s a = None" "s' = set_listeners a (listeners s a @ [cb]) s" "fs = []"
  | (ready) v where "fvalue s a = Some v" "s' = s" "fs = Invoke cb v # map Drop (captured cb)"
  using assms by (auto simp: subscribe_eq split: option.splits)

lemma subscribe_set_refs:
  "subscribe a cb (set_refs b n s) =
     (case subscribe a cb s of Inl e \<Rightarrow> Inl e | Inr (s1, fs) \<Rightarrow> Inr (set_refs b n s1, fs))"
  by (simp add: subscribe_eq set_refs_set_listeners split: option.splits)

lemma deref_Inr: "deref s h = Inr a \<longleftrightarrow> h = Some a \<and> a < length (nodes s)"
  by (auto simp: deref_def split: option.splits)

lemma add_ref_Inr:
  "add_ref a s = Inr s1 \<longleftrightarrow>
     a < length (nodes s) \<and> 0 \<le> refs s a \<and> s1 = set_refs a (refs s a + 1) s"
  by (auto simp: add_ref_def AddRef_def refs_def set_refs_def)

lemma release_Inr:
  "release a s = Inr s1 \<longleftrightarrow>
     a < length (nodes s) \<and> 1 < refs s a \<and> s1 = set_refs a (refs s a - 1) s"
  by (auto simp: release_def Release_def refs_def set_refs_def)

lemma release_Deleted:
  "release a s = Inl (Deleted b) \<longleftrightarrow> a < length (nodes s) \<and> refs s a = 1 \<and> b = a"
  by (auto simp: release_def Release_def refs_def)

lemma add_ref_Deleted: "add_ref a s \<noteq> Inl (Deleted b)"
  by (auto simp: add_ref_def AddRef_def)

lemma assign_recount:
  assumes "assign old p s = Inr s1"
  obtains ops where "s1 = recount ops s"
proof (cases "old = Some p")
  case True
  with assms have "s1 = recount [] s" by (simp add: assign_def)
  then show ?thesis by (rule that)
next
  case False
  show ?thesis
  proof (cases old)
    case None
    with assms False have "s1 = recount [(p, refs s p + 1)] s"
      by (simp add: assign_def add_ref_Inr)
    then show ?thesis by (rule that)
  next
    case (Some a)
    with assms False have "s1 = recount [(a, refs s a - 1), (p, refs (set_refs a (refs s a - 1) s) p + 1)] s"
      by (auto simp: assign_def add_ref_Inr release_Inr split: sum.splits)
    then show ?thesis by (rule that)
  qed
qed

lemma step_cases [consumes 1, case_names Ctor_done Ctor_sub Store Dec_zero Dec_more Keep Mark Sched
    Unref Inv_keep Inv_user Outer Inner Drain_done Drain_pop Worker_exit Worker_take Result]:
  assumes "step k s = Inr s'"
  obtains
    (Ctor_done) self ps i rest where
      "k < length (threads s)" "threads s ! k = Ctor self ps i # rest" "\<not> i < length ps"
      "self < length (nodes s)" "0 \<le> refs s self"
      "s' = set_refs self (refs s self + 1) (set_stack k rest s)"
  | (Ctor_sub) self ps i rest parent s1 fs where
      "k < length (threads s)" "threads s ! k = Ctor self ps i # rest" "i < length ps"
      "ps ! i = Some parent" "parent < length (nodes s)"
      "subscribe parent (ParentReady self i parent) s = Inr (s1, fs)"
      "self < length (nodes s)" "0 \<le> refs s self"
      "s' = set_refs self (refs s self + 1)
              (set_stack k (fs @ Ctor self ps (i + 1) # rest) s1)"
  | (Store) self i parent v rest d ops where
      "k < length (threads s)" "threads s ! k = Invoke (ParentReady self i parent) v # rest"
      "self < length (nodes s)" "deps_of s self = Some d"
      "i < length (dependencies d)"
      "assign (dependencies d ! i) parent s = Inr (recount ops s)"
      "s' = recount ops
              (set_stack k (Decrement self # rest)
                 (set_deps self (d\<lparr>dependencies := (dependencies d)[i := Some parent]\<rparr>) s))"
  | (Dec_zero) self rest d where
      "k < length (threads s)" "threads s ! k = Decrement self # rest"
      "self < length (nodes s)" "deps_of s self = Some d"
      "pendingDependencyCount d = 1"
      "s' = set_stack k (KeepAlive self # rest)
              (set_deps self (d\<lparr>pendingDependencyCount := 0\<rparr>) s)"
  | (Dec_more) self rest d where
      "k < length (threads s)" "threads s ! k = Decrement self # rest"
      "self < length (nodes s)" "deps_of s self = Some d"
      "pendingDependencyCount d \<noteq> 1"
      "s' = set_stack k rest
              (set_deps self (d\<lparr>pendingDependencyCount := pendingDependencyCount d - 1\<rparr>) s)"
  | (Keep) self rest s1 fs where
      "k < length (threads s)" "threads s ! k = KeepAlive self # rest"
      "self < length (nodes s)"
      "subscribe self (KeepDeps self) s = Inr (s1, fs)"
      "s' = set_stack k (fs @ StartMark self # rest) s1"
  | (Mark) self rest where
      "k < length (threads s)" "threads s ! k = StartMark self # rest"
      "self < length (nodes s)" "\<not> started s self"
      "s' = set_stack k (StartSchedule self # rest) (set_started self s)"
  | (Sched) self rest where
      "k < length (threads s)" "threads s ! k = StartSchedule self # rest"
      "self < length (nodes s)" "sched_of s self < length (pools s)"
      "0 \<le> refs s self"
      "s' = set_refs self (refs s self + 2)
              (set_stack k (Drop self # rest)
                 (set_pool (sched_of s self)
                    (Schedule (Some self) (pools s ! sched_of s self)) s))"
  | (Unref) a rest where
      "k < length (threads s)" "threads s ! k = Drop a # rest"
      "a < length (nodes s)" "1 < refs s a"
      "s' = set_refs a (refs s a - 1) (set_stack k rest s)"
  | (Inv_keep) self v rest where
      "k < length (threads s)" "threads s ! k = Invoke (KeepDeps self) v # rest"
      "s' = set_stack k rest s"
  | (Inv_user) tag v rest where
      "k < length (threads s)" "threads s ! k = Invoke (UserListener tag) v # rest"
      "s' = set_stack k rest s"
  | (Outer) proxy y rest s1 fs where
      "k < length (threads s)"
      "threads s ! k = Invoke (UnwrapOuter proxy) (Handle (Some y)) # rest"
      "y < length (nodes s)"
      "subscribe y (UnwrapInner proxy) s = Inr (s1, fs)"
      "proxy < length (nodes s)" "0 \<le> refs s proxy"
      "s' = set_refs proxy (refs s proxy + 1) (set_stack k (fs @ rest) s1)"
  | (Inner) proxy v rest where
      "k < length (threads s)" "threads s ! k = Invoke (UnwrapInner proxy) v # rest"
      "proxy < length (nodes s)" "fvalue s proxy = None"
      "s' = set_stack k (Drain proxy # rest) (write_value proxy v s)"
  | (Drain_done) a rest where
      "k < length (threads s)" "threads s ! k = Drain a # rest"
      "a < length (nodes s)" "listeners s a = []"
      "s' = set_stack k rest s"
  | (Drain_pop) a rest cb q v where
      "k < length (threads s)" "threads s ! k = Drain a # rest"
      "a < length (nodes s)" "listeners s a = cb # q" "fvalue s a = Some v"
      "s' = set_stack k (Invoke cb v # map Drop (captured cb) @ Drain a # rest)
              (set_listeners a q s)"
  | (Worker_exit) p rest where
      "k < length (threads s)" "threads s ! k = WorkerLoop p # rest"
      "p < length (pools s)" "\<not> isRunning (pools s ! p)" "taskCount (pools s ! p) = 0"
      "s' = set_stack k rest s"
  | (Worker_take) p rest self q where
      "k < length (threads s)" "threads s ! k = WorkerLoop p # rest"
      "p < length (pools s)" "taskQueue (pools s ! p) = Some self # q"
      "0 < taskCount (pools s ! p)"
      "self < length (nodes s)" "0 < refs s self"
      "s' = set_stack k (CallFunctor self # Drop self # WorkerLoop p # rest)
              (set_pool p ((pools s ! p)\<lparr>taskCount := taskCount (pools s ! p) - 1,
                                          taskQueue := q\<rparr>) s)"
  | (Result) self v rest where
      "k < length (threads s)" "threads s ! k = SetResult self v # rest"
      "self < length (nodes s)" "fvalue s self = None"
      "s' = set_stack k (Drain self # rest) (write_value self v s)"
proof -
  from assms have k: "k < length (threads s)"
    by (auto simp: step_def split: if_splits)
  from assms k obtain fr rest where
    st: "threads s ! k = fr # rest" and sf: "step_frame fr rest k s = Inr s'"
    by (auto simp: step_def split: list.splits)
  show ?thesis
  proof (cases fr)
    case (Ctor self ps i)
    show ?thesis
    proof (cases "i < length ps")
      case False
      with Ctor sf st k show ?thesis
        by (auto simp: add_ref_Inr refs_commute split: sum.splits intro: Ctor_done)
    next
      case True
      with Ctor sf obtain parent s0 s1 fs where
        p: "ps ! i = Some parent" "parent < length (nodes s)" and
        a: "add_ref self s = Inr s0" and
        sub: "subscribe parent (ParentReady self i parent) s0 = Inr (s1, fs)" and
        s': "s' = set_stack k (fs @ Ctor self ps (i + 1) # rest) s1"
        by (auto simp: deref_Inr split: sum.splits prod.splits)
      from a have r: "self < length (nodes s)" "0 \<le> refs s self"
        and s0: "s0 = set_refs self (refs s self + 1) s"
        by (simp_all add: add_ref_Inr)
      from sub s0 obtain s2 where
        sub2: "subscribe parent (ParentReady self i parent) s = Inr (s2, fs)" and
        s1: "s1 = set_refs self (refs s self + 1) s2"
        by (auto simp: subscribe_set_refs split: sum.splits prod.splits)
      from s' s1 have "s' = set_refs self (refs s self + 1)
          (set_stack k (fs @ Ctor self ps (i + 1) # rest) s2)"
        by (simp add: refs_commute)
      with Ctor st k True p sub2 r show ?thesis
        by (auto intro: Ctor_sub)
    qed
  next
    case (Invoke cb v)
    show ?thesis
    proof (cases cb)
      case (ParentReady self i parent)
      with Invoke sf obtain d s1 where
        d: "self < length (nodes s)" "deps_of s self = Some d" "i < length (dependencies d)" and
        a: "assign (dependencies d ! i) parent s = Inr s1" and
        s': "s' = set_stack k (Decrement self # rest)
               (set_deps self (d\<lparr>dependencies := (dependencies d)[i := Some parent]\<rparr>) s1)"
        by (auto simp: deps_of_def split: if_splits option.splits sum.splits)
      from a obtain ops where ops: "s1 = recount ops s"
        by (rule assign_recount)
      with s' have "s' = recount ops (set_stack k (Decrement self # rest)
               (set_deps self (d\<lparr>dependencies := (dependencies d)[i := Some parent]\<rparr>) s))"
        by (simp add: recount_commute)
      with ParentReady Invoke st k d a ops show ?thesis
        by (auto intro: Store)
    next
      case (KeepDeps self)
      with Invoke sf st k show ?thesis by (auto intro: Inv_keep)
    next
      case (UnwrapOuter proxy)
      with Invoke sf obtain y s0 s1 fs where
        v: "v = Handle (Some y)" "y < length (nodes s)" and
        a: "add_ref proxy s = Inr s0" and
        sub: "subscribe y (UnwrapInner proxy) s0 = Inr (s1, fs)" and
        s': "s' = set_stack k (fs @ rest) s1"
        by (auto simp: deref_Inr split: val.splits sum.splits prod.splits)
      from a have r: "proxy < length (nodes s)" "0 \<le> refs s proxy"
        and s0: "s0 = set_refs proxy (refs s proxy + 1) s"
        by (simp_all add: add_ref_Inr)
      from sub s0 obtain s2 where
        sub2: "subscribe y (UnwrapInner proxy) s = Inr (s2, fs)" and
        s1: "s1 = set_refs proxy (refs s proxy + 1) s2"
        by (auto simp: subscribe_set_refs split: sum.splits prod.splits)
      from s' s1 have "s' = set_refs proxy (refs s proxy + 1) (set_stack k (fs @ rest) s2)"
        by (simp add: refs_commute)
      with UnwrapOuter Invoke st k v sub2 r show ?thesis
        by (auto intro: Outer)
    next
      case (UnwrapInner proxy)
      with Invoke sf st k show ?thesis
        by (auto simp: SetValue_locked_def fvalue_def write_value_def
            split: if_splits intro: Inner)
    next
      case (UserListener tag)
      with Invoke sf st k show ?thesis by (auto intro: Inv_user)
    qed
  next
    case (Decrement self)
    with sf st k show ?thesis
      by (auto simp: Let_def deps_of_def split: if_splits option.splits intro: Dec_zero Dec_more)
  next
    case (KeepAlive self)
    with sf st k show ?thesis
      by (auto split: if_splits sum.splits prod.splits intro: Keep)
  next
    case (StartMark self)
    with sf st k show ?thesis
      by (auto simp: MarkAsStarted_def started_def set_started_def split: if_splits intro: Mark)
  next
    case (StartSchedule self)
    with sf obtain s1 s2 where
      p: "self < length (nodes s)" "sched_of s self < length (pools s)" and
      a: "add_ref self s = Inr s1" "add_ref self s1 = Inr s2" and
      s': "s' = set_stack k (Drop self # rest)
             (set_pool (sched_of s self) (Schedule (Some self) (pools s ! sched_of s self)) s2)"
      by (auto simp: Let_def sched_of_def split: if_splits sum.splits)
    from a have r: "0 \<le> refs s self" and s2: "s2 = set_refs self (refs s self + 2) s"
      by (auto simp: add_ref_Inr add.commute)
    from s' s2 have "s' = set_refs self (refs s self + 2)
        (set_stack k (Drop self # rest)
           (set_pool (sched_of s self) (Schedule (Some self) (pools s ! sched_of s self)) s))"
      by (simp add: refs_commute)
    with StartSchedule st k p r show ?thesis
      by (auto intro: Sched)
  next
    case (Drop a)
    with sf st k show ?thesis
      by (auto simp: release_Inr refs_commute split: sum.splits intro: Unref)
  next
    case (Drain a)
    with sf have a: "a < length (nodes s)"
      by (auto split: if_splits)
    show ?thesis
    proof (cases "listeners s a")
      case Nil
      with Drain sf a have "s' = set_stack k rest s"
        by (simp add: Pop_locked_def listeners_def)
      with Drain st k a Nil show ?thesis by (auto intro: Drain_done)
    next
      case (Cons cb q)
      with Drain sf a obtain v where
        "fvalue s a = Some v"
        "s' = set_stack k (Invoke cb v # map Drop (captured cb) @ Drain a # rest)
                (set_listeners a q s)"
        by (auto simp: Pop_locked_def GetValueInternal_def listeners_def fvalue_def
            set_listeners_def split: option.splits)
      with Drain st k a Cons show ?thesis by (auto intro: Drain_pop)
    qed
  next
    case (WorkerLoop p)
    show ?thesis
    proof (cases "WorkerThreadRoutine_locked (pools s ! p)")
      case (Inl e)
      with WorkerLoop sf show ?thesis by (auto split: if_splits)
    next
      case (Inr t)
      show ?thesis
      proof (cases t)
        case Wait
        with Inr WorkerLoop sf show ?thesis by (auto split: if_splits)
      next
        case Break
        with Inr WorkerLoop sf st k show ?thesis
          by (auto simp: WorkerThreadRoutine_locked_def
              split: if_splits list.splits intro: Worker_exit)
      next
        case (Took q f)
        with Inr WorkerLoop sf obtain self s1 s2 where
          p: "p < length (pools s)" and f: "f = Some self" and
          a: "add_ref self s = Inr s1" "release self s1 = Inr s2" and
          s': "s' = set_stack k (CallFunctor self # Drop self # WorkerLoop p # rest)
                 (set_pool p q s2)"
          by (auto split: if_splits option.splits sum.splits)
        from a have r: "self < length (nodes s)" "0 < refs s self" and s2: "s2 = s"
          by (auto simp: add_ref_Inr release_Inr)
        from Inr Took f have
          tq: "taskQueue (pools s ! p) = Some self # taskQueue q"
            "0 < taskCount (pools s ! p)"
            "q = (pools s ! p)\<lparr>taskCount := taskCount (pools s ! p) - 1,
                                 taskQueue := taskQueue q\<rparr>"
          by (auto simp: WorkerThreadRoutine_locked_def split: if_splits list.splits)
        from s' s2 tq(3) have "s' = set_stack k (CallFunctor self # Drop self # WorkerLoop p # rest)
            (set_pool p ((pools s ! p)\<lparr>taskCount := taskCount (pools s ! p) - 1,
                                        taskQueue := taskQueue q\<rparr>) s)"
          by simp
        with WorkerLoop st k p tq(1,2) r show ?thesis
          by (auto intro: Worker_take)
      qed
    qed
  next
    case (CallFunctor self)
    with sf show ?thesis by simp
  next
    case (SetResult self v)
    with sf st k show ?thesis
      by (auto simp: SetValue_locked_def fvalue_def write_value_def
          split: if_splits intro: Result)
  qed
qed


lemma resolve_Inr: "resolve s sch = Inr p \<Longrightarrow> p < length (pools s)"
  by (auto simp: resolve_def split: option.splits if_splits)

lemma AddRef_leaf [simp]: "AddRef (leaf f p) = Inr (leaf_node f p)"
  by (simp add: AddRef_def leaf_def leaf_node_def)

lemma MakeTaskImpl_eq:
  "MakeTaskImpl f p ps s =
     (if ps = [] then Inr (alloc (leaf_node f p) s)
      else Inr (spawn [Ctor (length (nodes s)) ps 0] (alloc (composite p (length ps)) s)))"
  by (simp add: MakeTaskImpl_def)

lemma proxy_node_eq:
  "MarkAsStarted a (leaf_node None p) = Inr m \<Longrightarrow> AddRef m = Inr (proxy_node p)"
  by (auto simp: MarkAsStarted_def leaf_node_def AddRef_def proxy_node_def)

lemma lifted_node_eq:
  "MarkAsStarted a (leaf_node None p) = Inr m \<Longrightarrow>
   SetValue_locked v (future m) = Inr f \<Longrightarrow> m\<lparr>future := f\<rparr> = lifted_node v p"
  by (auto simp: MarkAsStarted_def leaf_node_def lifted_node_def SetValue_locked_def
      Future_default_def split: if_splits)

lemma Unwrap_Inr:
  assumes "Unwrap h sch s = Inr s'"
  obtains (proxy) x p s1 fs where "h = Some x" "x < length (nodes s)" "resolve s sch = Inr p"
    "subscribe x (UnwrapOuter (length (nodes s))) (alloc (proxy_node p) s) = Inr (s1, fs)"
    "s' = spawn fs s1"
proof -
  from assms obtain p m x pt s1 fs where
    p: "resolve s sch = Inr p" and
    m: "MarkAsStarted (length (nodes s)) (leaf_node None p) = Inr m" and
    x: "h = Some x" "x < length (nodes s)" and
    pt: "AddRef m = Inr pt" and
    sub: "subscribe x (UnwrapOuter (length (nodes s))) (alloc pt s) = Inr (s1, fs)" and
    s': "s' = spawn fs s1"
    by (auto simp: Unwrap_def deref_Inr split: sum.splits prod.splits)
  from proxy_node_eq [OF m] pt have "pt = proxy_node p" by simp
  with p x sub s' show ?thesis by (auto intro: proxy)
qed

lemma perform_cases [consumes 1, case_names Pool Default Leaf Composite LeafStart FromValue
    Start Unwrap Subscribe]:
  assumes "perform c s = Inr s'"
  obtains
    (Pool) n where "c = CNewPool n" "0 < n" "s' = new_pool n s"
  | (Default) p where "c = CSetDefaultTaskScheduler p" "s' = s\<lparr>gDefaultTaskScheduler := p\<rparr>"
  | (Leaf) p where "parents_of c = []" "p < length (pools s)"
      "s' = alloc (leaf_node (Some UserFunctor) p) s"
  | (Composite) p where "parents_of c \<noteq> []" "p < length (pools s)"
      "s' = spawn [Ctor (length (nodes s)) (parents_of c) 0]
              (alloc (composite p (length (parents_of c))) s)"
  | (LeafStart) p where "parents_of c = []" "p < length (pools s)"
      "s' = spawn [StartMark (length (nodes s))] (alloc (leaf_node (Some UserFunctor) p) s)"
  | (FromValue) p v where "c = CMakeTaskFromValue v (Some p)" "p < length (pools s)"
      "s' = spawn [Drain (length (nodes s))] (alloc (lifted_node v p) s)"
  | (Start) a where "c = CStart (Some a)" "a < length (nodes s)" "s' = spawn [StartMark a] s"
  | (Unwrap) x p s1 fs where "c = CUnwrap0 (Some x) \<or> (\<exists>sch. c = CUnwrap (Some x) sch)"
      "x < length (nodes s)" "p < length (pools s)"
      "subscribe x (UnwrapOuter (length (nodes s))) (alloc (proxy_node p) s) = Inr (s1, fs)"
      "s' = spawn fs s1"
  | (Subscribe) a tag s1 fs where "c = CSubscribe (Some a) tag" "a < length (nodes s)"
      "subscribe a (UserListener tag) s = Inr (s1, fs)" "s' = spawn fs s1"
proof (cases c)
  case (CNewPool n)
  with assms show ?thesis by (auto simp: NewPool_def new_pool_def split: if_splits intro: Pool)
next
  case (CSetDefaultTaskScheduler p)
  with assms show ?thesis by (auto intro: Default)
next
  case (CMakeTask sch ps)
  with assms show ?thesis
    by (auto simp: MakeTask_def MakeTaskImpl_eq split: sum.splits if_splits
        dest: resolve_Inr intro: Leaf Composite)
next
  case (CMakeTaskAndStart sch)
  with assms show ?thesis
    by (auto simp: MakeTaskAndStart_def MakeTask_def MakeTaskImpl_eq resolve_def
        split: sum.splits if_splits option.splits intro: LeafStart)
next
  case (CMakeTaskFromValue v sch)
  with assms show ?thesis
    by (auto simp: MakeTaskFromValue_def lifted_node_eq
        split: option.splits if_splits sum.splits intro: FromValue)
next
  case (CStart h)
  with assms show ?thesis
    by (auto simp: Start_def deref_Inr split: sum.splits intro: Start)
next
  case (CThen h sch)
  with assms show ?thesis
    by (auto simp: Then_def GetScheduler_def MakeTask_def MakeTaskImpl_eq
        split: sum.splits option.splits dest: resolve_Inr intro: Composite)
next
  case (CUnwrap h sch)
  with assms have "Unwrap h sch s = Inr s'" by simp
  then show ?thesis
  proof (cases rule: Unwrap_Inr)
    case (proxy x p s1 fs)
    with CUnwrap resolve_Inr [OF proxy(3)] show ?thesis
      by (intro Unwrap [of x p s1 fs]) auto
  qed
next
  case (CUnwrap0 h)
  with assms obtain q where "Unwrap h (Some q) s = Inr s'"
    by (auto simp: Unwrap0_def split: sum.splits)
  then show ?thesis
  proof (cases rule: Unwrap_Inr)
    case (proxy x p s1 fs)
    with CUnwrap0 resolve_Inr [OF proxy(3)] show ?thesis
      by (intro Unwrap [of x p s1 fs]) auto
  qed
next
  case (CSubscribe h tag)
  with assms show ?thesis
    by (auto simp: Subscribe_def deref_Inr split: sum.splits prod.splits intro: Subscribe)
qed

lemma return_cases [consumes 1, case_names Return]:
  assumes "return k v s = Inr s'"
  obtains self rest where
    "k < length (threads s)" "threads s ! k = CallFunctor self # rest"
    "self < length (nodes s)" "functor_of s self \<noteq> None"
    "s' = set_stack k (SetResult self v # rest) s"
  using assms
  by (auto simp: return_def functor_of_def split: if_splits list.splits frame.splits option.splits)


subsection \<open>Well-formedness is kept\<close>

lemma frame_wf_same:
  assumes "length (nodes s') = length (nodes s)" and "arity s' = arity s"
  shows "frame_wf s' = frame_wf s"
proof
  fix fr :: "'a frame"
  show "frame_wf s' fr = frame_wf s fr"
  proof (cases fr)
    case (Invoke cb v)
    then show ?thesis using assms by (cases cb) (simp_all add: frame_wf_def)
  qed (use assms in \<open>simp_all add: frame_wf_def\<close>)
qed

lemma cb_wf_same:
  assumes "length (nodes s') = length (nodes s)" and "arity s' = arity s"
  shows "cb_wf s' = cb_wf s"
proof
  fix cb
  show "cb_wf s' cb = cb_wf s cb"
    using assms by (cases cb) (simp_all add: cb_wf_def)
qed

lemma frame_wf_simps [simp]:
  "frame_wf (set_stack k st s) = frame_wf s"
  "frame_wf (spawn st s) = frame_wf s"
  "frame_wf (set_pool p q s) = frame_wf s"
  "frame_wf (new_pool m s) = frame_wf s"
  "frame_wf (s\<lparr>gDefaultTaskScheduler := p'\<rparr>) = frame_wf s"
  "frame_wf (set_listeners a l s) = frame_wf s"
  "frame_wf (write_value a v s) = frame_wf s"
  "frame_wf (set_started a s) = frame_wf s"
  "frame_wf (set_refs a n s) = frame_wf s"
  "frame_wf (recount ops s) = frame_wf s"
  by (rule frame_wf_same; simp)+

lemma cb_wf_simps [simp]:
  "cb_wf (set_stack k st s) = cb_wf s"
  "cb_wf (spawn st s) = cb_wf s"
  "cb_wf (set_pool p q s) = cb_wf s"
  "cb_wf (new_pool m s) = cb_wf s"
  "cb_wf (s\<lparr>gDefaultTaskScheduler := p'\<rparr>) = cb_wf s"
  "cb_wf (set_listeners a l s) = cb_wf s"
  "cb_wf (write_value a v s) = cb_wf s"
  "cb_wf (set_started a s) = cb_wf s"
  "cb_wf (set_refs a n s) = cb_wf s"
  "cb_wf (recount ops s) = cb_wf s"
  by (rule cb_wf_same; simp)+

lemma wf_set_deps:
  assumes "a < length (nodes s)" and "arity s a = Some (length (dependencies d))"
  shows "frame_wf (set_deps a d s) = frame_wf s" and "cb_wf (set_deps a d s) = cb_wf s"
proof -
  have "arity (set_deps a d s) b = arity s b" for b
    using assms by (cases "b = a") simp_all
  then have ar: "arity (set_deps a d s) = arity s"
    by (rule ext)
  show "frame_wf (set_deps a d s) = frame_wf s"
    by (rule frame_wf_same) (simp_all add: ar)
  show "cb_wf (set_deps a d s) = cb_wf s"
    by (rule cb_wf_same) (simp_all add: ar)
qed

lemma frame_wf_Invoke [simp]: "frame_wf s (Invoke cb v) = cb_wf s cb"
  by (cases cb) (simp_all add: frame_wf_def cb_wf_def)

lemma cb_wf_captured: "cb_wf s cb \<Longrightarrow> a \<in> set (captured cb) \<Longrightarrow> frame_wf s (Drop a)"
  by (cases cb) (auto simp: cb_wf_def frame_wf_def)

lemma cb_wf_alloc: "cb_wf s cb \<Longrightarrow> cb_wf (alloc n s) cb"
  by (cases cb) (auto simp: cb_wf_def)

lemma frame_wf_alloc: "frame_wf s fr \<Longrightarrow> frame_wf (alloc n s) fr"
proof (cases fr)
  case (Invoke cb v)
  then show "frame_wf s fr \<Longrightarrow> ?thesis"
    by (cases cb) (auto simp: frame_wf_def)
qed (auto simp: frame_wf_def)

text \<open>The thread \<open>k\<close> replaces its top frame by the frames \<open>new\<close>.\<close>

lemma wf_threads_set_stack:
  assumes "wf_threads s" and "k < length (threads s)" and "threads s ! k = fr # rest"
    and "\<forall>f\<in>set new. frame_wf s f"
  shows "wf_threads (set_stack k (new @ rest) s)"
  using assms by (auto simp: wf_threads_def nth_list_update)

lemma wf_threads_spawn:
  assumes "wf_threads s" and "\<forall>f\<in>set st. frame_wf s f"
  shows "wf_threads (spawn st s)"
  using assms by (auto simp: wf_threads_def nth_append)

lemma wf_threads_same:
  assumes "wf_threads s" and "threads s' = threads s" and "frame_wf s' = frame_wf s"
  shows "wf_threads s'"
  using assms by (simp add: wf_threads_def)

lemma wf_threads_alloc: "wf_threads s \<Longrightarrow> wf_threads (alloc n s)"
  by (auto simp: wf_threads_def intro: frame_wf_alloc)

lemma wf_queues_same:
  assumes "wf_queues s" and "length (nodes s') = length (nodes s)"
    and "listeners s' = listeners s" and "cb_wf s' = cb_wf s"
  shows "wf_queues s'"
  using assms by (simp add: wf_queues_def)

lemma wf_queues_set_listeners:
  assumes "wf_queues s" and "a < length (nodes s)" and "\<forall>cb\<in>set q. cb_wf s cb"
  shows "wf_queues (set_listeners a q s)"
  using assms by (auto simp: wf_queues_def)

lemma wf_queues_alloc:
  assumes "wf_queues s" and "onValueAvailable (future n) = []"
  shows "wf_queues (alloc n s)"
  using assms by (auto simp: wf_queues_def less_Suc_eq intro: cb_wf_alloc)

lemma wf_pools_same:
  assumes "wf_pools s" and "pools s' = pools s" and "length (nodes s) \<le> length (nodes s')"
  shows "wf_pools s'"
  using assms by (fastforce simp: wf_pools_def)

lemma wf_pools_set_pool:
  assumes "wf_pools s" and "p < length (pools s)"
    and "\<forall>f\<in>set (taskQueue q). \<exists>c<length (nodes s). f = Some c"
  shows "wf_pools (set_pool p q s)"
  using assms by (auto simp: wf_pools_def nth_list_update)

lemma wf_pools_new_pool: "wf_pools s \<Longrightarrow> wf_pools (new_pool n s)"
  by (auto simp: wf_pools_def nth_append)

lemma wf_subscribe:
  assumes "subscribe a cb s = Inr (s', fs)" and "wf s" and "a < length (nodes s)"
    and "cb_wf s cb"
  shows "wf s'" and "\<forall>f\<in>set fs. frame_wf s' f" and "threads s' = threads s"
    and "frame_wf s' = frame_wf s" and "length (nodes s') = length (nodes s)"
    and "pools s' = pools s"
proof -
  from assms(1) show "wf s'"
  proof (cases rule: subscribe_cases)
    case queued
    let ?s = "set_listeners a (listeners s a @ [cb]) s"
    from assms(2) have q: "wf_queues s" and t: "wf_threads s" and p: "wf_pools s"
      by (simp_all add: wf_def)
    from q assms(3) have "\<forall>c\<in>set (listeners s a). cb_wf s c"
      by (simp add: wf_queues_def)
    with assms(4) have "\<forall>c\<in>set (listeners s a @ [cb]). cb_wf s c"
      by simp
    with q assms(3) have "wf_queues ?s"
      by (rule wf_queues_set_listeners)
    moreover from t have "wf_threads ?s"
      by (rule wf_threads_same) simp_all
    moreover from p have "wf_pools ?s"
      by (rule wf_pools_same) simp_all
    ultimately show ?thesis using queued by (simp add: wf_def)
  next
    case (ready v)
    with assms(2) show ?thesis by simp
  qed
  from assms(1,4) show "\<forall>f\<in>set fs. frame_wf s' f"
    by (cases rule: subscribe_cases) (auto intro: cb_wf_captured)
  from assms(1) show "threads s' = threads s"
    by (cases rule: subscribe_cases) simp_all
  from assms(1) show "frame_wf s' = frame_wf s"
    by (cases rule: subscribe_cases) simp_all
  from assms(1) show "length (nodes s') = length (nodes s)"
    by (cases rule: subscribe_cases) simp_all
  from assms(1) show "pools s' = pools s"
    by (cases rule: subscribe_cases) simp_all
qed


lemma wf_nodes_same:
  assumes "wf s" and "threads s' = threads s" and "pools s' = pools s"
    and "length (nodes s') = length (nodes s)" and "listeners s' = listeners s"
    and "frame_wf s' = frame_wf s" and "cb_wf s' = cb_wf s"
  shows "wf s'"
proof -
  from assms(1) have "wf_threads s" "wf_queues s" "wf_pools s"
    by (simp_all add: wf_def)
  then have "wf_threads s'" "wf_queues s'" "wf_pools s'"
    using assms(2-7)
    by (auto intro: wf_threads_same wf_queues_same wf_pools_same)
  then show ?thesis by (simp add: wf_def)
qed

lemma wf_set_deps_same:
  assumes "wf s" and "a < length (nodes s)" and "arity s a = Some (length (dependencies d))"
  shows "wf (set_deps a d s)"
proof (rule wf_nodes_same [OF assms(1)])
  show "frame_wf (set_deps a d s) = frame_wf s"
    by (rule wf_set_deps(1) [OF assms(2,3)])
  show "cb_wf (set_deps a d s) = cb_wf s"
    by (rule wf_set_deps(2) [OF assms(2,3)])
qed simp_all

lemma wf_set_started: "wf s \<Longrightarrow> wf (set_started a s)"
  by (rule wf_nodes_same [of s]) simp_all

lemma wf_set_refs: "wf s \<Longrightarrow> wf (set_refs a n s)"
  by (rule wf_nodes_same [of s]) simp_all

lemma wf_recount: "wf s \<Longrightarrow> wf (recount ops s)"
  by (rule wf_nodes_same [of s]) simp_all

lemma wf_write_value: "wf s \<Longrightarrow> wf (write_value a v s)"
  by (rule wf_nodes_same [of s]) simp_all

lemma wf_set_listeners:
  assumes "wf s" and "a < length (nodes s)" and "\<forall>cb\<in>set q. cb_wf s cb"
  shows "wf (set_listeners a q s)"
proof -
  from assms(1) have t: "wf_threads s" and q: "wf_queues s" and p: "wf_pools s"
    by (simp_all add: wf_def)
  from q assms(2,3) have "wf_queues (set_listeners a q s)"
    by (rule wf_queues_set_listeners)
  moreover from t have "wf_threads (set_listeners a q s)"
    by (rule wf_threads_same) simp_all
  moreover from p have "wf_pools (set_listeners a q s)"
    by (rule wf_pools_same) simp_all
  ultimately show ?thesis by (simp add: wf_def)
qed

lemma wf_set_pool:
  assumes "wf s" and "p < length (pools s)"
    and "\<forall>f\<in>set (taskQueue q). \<exists>c<length (nodes s). f = Some c"
  shows "wf (set_pool p q s)"
proof -
  from assms(1) have t: "wf_threads s" and qs: "wf_queues s" and ps: "wf_pools s"
    by (simp_all add: wf_def)
  from ps assms(2,3) have "wf_pools (set_pool p q s)"
    by (rule wf_pools_set_pool)
  moreover from t have "wf_threads (set_pool p q s)"
    by (rule wf_threads_same) simp_all
  moreover from qs have "wf_queues (set_pool p q s)"
    by (rule wf_queues_same) simp_all
  ultimately show ?thesis by (simp add: wf_def)
qed

lemma wf_alloc:
  assumes "wf s" and "onValueAvailable (future n) = []"
  shows "wf (alloc n s)"
proof -
  from assms(1) have t: "wf_threads s" and qs: "wf_queues s" and ps: "wf_pools s"
    by (simp_all add: wf_def)
  from ps have "wf_pools (alloc n s)"
    by (rule wf_pools_same) simp_all
  with t qs assms(2) show ?thesis
    by (simp add: wf_def wf_threads_alloc wf_queues_alloc)
qed

lemma wf_spawn:
  assumes "wf s" and "\<forall>f\<in>set st. frame_wf s f"
  shows "wf (spawn st s)"
proof -
  from assms(1) have t: "wf_threads s" and qs: "wf_queues s" and ps: "wf_pools s"
    by (simp_all add: wf_def)
  from t assms(2) have "wf_threads (spawn st s)"
    by (rule wf_threads_spawn)
  moreover from qs have "wf_queues (spawn st s)"
    by (rule wf_queues_same) simp_all
  moreover from ps have "wf_pools (spawn st s)"
    by (rule wf_pools_same) simp_all
  ultimately show ?thesis by (simp add: wf_def)
qed

lemma wf_new_pool: "wf s \<Longrightarrow> wf (new_pool n s)"
proof -
  assume w: "wf s"
  then have t: "wf_threads s" and qs: "wf_queues s" and ps: "wf_pools s"
    by (simp_all add: wf_def)
  from t have "wf_threads (new_pool n s)"
    by (auto simp: wf_threads_def nth_append frame_wf_def)
  moreover from qs have "wf_queues (new_pool n s)"
    by (rule wf_queues_same) simp_all
  moreover from ps have "wf_pools (new_pool n s)"
    by (rule wf_pools_new_pool)
  ultimately show ?thesis by (simp add: wf_def)
qed

text \<open>The thread \<open>k\<close> replaces its top frame by the frames \<open>new\<close>, in a state \<open>s1\<close>.\<close>

lemma wf_set_stack:
  assumes "wf s1" and "threads s1 = threads s"
    and "k < length (threads s)" and "threads s ! k = fr # rest"
    and "\<forall>f\<in>set new. frame_wf s1 f"
  shows "wf (set_stack k (new @ rest) s1)"
proof -
  from assms(1) have t: "wf_threads s1" and qs: "wf_queues s1" and ps: "wf_pools s1"
    by (simp_all add: wf_def)
  from t assms(2-5) have "wf_threads (set_stack k (new @ rest) s1)"
    by (intro wf_threads_set_stack) simp_all
  moreover from qs have "wf_queues (set_stack k (new @ rest) s1)"
    by (rule wf_queues_same) simp_all
  moreover from ps have "wf_pools (set_stack k (new @ rest) s1)"
    by (rule wf_pools_same) simp_all
  ultimately show ?thesis by (simp add: wf_def)
qed

lemma wf_top:
  assumes "wf s" and "k < length (threads s)" and "threads s ! k = fr # rest"
  shows "frame_wf s fr"
  using assms by (auto simp: wf_def wf_threads_def)

lemma wf_listener:
  assumes "wf s" and "a < length (nodes s)" and "cb \<in> set (listeners s a)"
  shows "cb_wf s cb"
  using assms by (auto simp: wf_def wf_queues_def)

lemma wf_queued_task:
  assumes "wf s" and "p < length (pools s)" and "f \<in> set (taskQueue (pools s ! p))"
  shows "\<exists>c<length (nodes s). f = Some c"
  using assms by (auto simp: wf_def wf_pools_def)

lemma wf_step:
  assumes "step k s = Inr s'" and w: "wf s"
  shows "wf s'"
  using assms(1)
proof (cases rule: step_cases)
  case (Ctor_done self ps i rest)
  then show ?thesis
    using wf_set_stack [OF w refl, of k _ rest "[]"] by (simp add: wf_set_refs)
next
  case (Ctor_sub self ps i rest parent s1 fs)
  from wf_top [OF w Ctor_sub(1,2)] have c: "frame_wf s (Ctor self ps i)" .
  with Ctor_sub(3,5) have cb: "cb_wf s (ParentReady self i parent)"
    by (simp add: frame_wf_def cb_wf_def)
  note sub = wf_subscribe [OF Ctor_sub(6) w Ctor_sub(5) cb]
  from c Ctor_sub(3) have "frame_wf s (Ctor self ps (i + 1))"
    by (simp add: frame_wf_def)
  with sub(2,4) have "\<forall>f\<in>set (fs @ [Ctor self ps (i + 1)]). frame_wf s1 f"
    by simp
  from wf_set_stack [OF sub(1) sub(3) Ctor_sub(1,2) this] Ctor_sub(9)
  show ?thesis by (simp add: wf_set_refs)
next
  case (Store self i parent v rest d ops)
  from Store(5) have i: "i < length (dependencies d)" and self: "self < length (nodes s)"
    using Store(3) by simp_all
  let ?d = "d\<lparr>dependencies := (dependencies d)[i := Some parent]\<rparr>"
  have ar: "arity s self = Some (length (dependencies ?d))"
    using Store(4) by (simp add: arity_def)
  have w1: "wf (set_deps self ?d s)"
    using w self ar by (rule wf_set_deps_same)
  have "\<forall>f\<in>set [Decrement self]. frame_wf (set_deps self ?d s) f"
    using self by (simp add: frame_wf_def)
  from wf_set_stack [OF w1 _ Store(1,2) this] Store(7)
  show ?thesis by (simp add: wf_recount)
next
  case (Dec_zero self rest d)
  let ?d = "d\<lparr>pendingDependencyCount := 0\<rparr>"
  have ar: "arity s self = Some (length (dependencies ?d))"
    using Dec_zero(4) by (simp add: arity_def)
  have w1: "wf (set_deps self ?d s)"
    using w Dec_zero(3) ar by (rule wf_set_deps_same)
  have "\<forall>f\<in>set [KeepAlive self]. frame_wf (set_deps self ?d s) f"
    using Dec_zero(3) by (simp add: frame_wf_def)
  from wf_set_stack [OF w1 _ Dec_zero(1,2) this] Dec_zero(6)
  show ?thesis by simp
next
  case (Dec_more self rest d)
  let ?d = "d\<lparr>pendingDependencyCount := pendingDependencyCount d - 1\<rparr>"
  have ar: "arity s self = Some (length (dependencies ?d))"
    using Dec_more(4) by (simp add: arity_def)
  have w1: "wf (set_deps self ?d s)"
    using w Dec_more(3) ar by (rule wf_set_deps_same)
  from wf_set_stack [OF w1 _ Dec_more(1,2), of "[]"] Dec_more(6)
  show ?thesis by simp
next
  case (Keep self rest s1 fs)
  have cb: "cb_wf s (KeepDeps self)"
    using Keep(3) by (simp add: cb_wf_def)
  note sub = wf_subscribe [OF Keep(4) w Keep(3) cb]
  have "frame_wf s (StartMark self)"
    using Keep(3) by (simp add: frame_wf_def)
  with sub(2,4) have "\<forall>f\<in>set (fs @ [StartMark self]). frame_wf s1 f"
    by simp
  from wf_set_stack [OF sub(1) sub(3) Keep(1,2) this] Keep(5)
  show ?thesis by simp
next
  case (Mark self rest)
  have "\<forall>f\<in>set [StartSchedule self]. frame_wf (set_started self s) f"
    using Mark(3) by (simp add: frame_wf_def)
  from wf_set_stack [OF wf_set_started [OF w] _ Mark(1,2) this] Mark(5)
  show ?thesis by simp
next
  case (Sched self rest)
  let ?p = "sched_of s self"
  have "\<forall>f\<in>set (taskQueue (Schedule (Some self) (pools s ! ?p))).
          \<exists>c<length (nodes s). f = Some c"
    using wf_queued_task [OF w Sched(4)] Sched(3) by (auto simp: Schedule_def)
  from wf_set_pool [OF w Sched(4) this]
  have w1: "wf (set_pool ?p (Schedule (Some self) (pools s ! ?p)) s)" .
  have "\<forall>f\<in>set [Drop self].
          frame_wf (set_pool ?p (Schedule (Some self) (pools s ! ?p)) s) f"
    using Sched(3) by (simp add: frame_wf_def)
  from wf_set_stack [OF w1 _ Sched(1,2) this] Sched(6)
  show ?thesis by (simp add: wf_set_refs)
next
  case (Unref a rest)
  then show ?thesis
    using wf_set_stack [OF w refl, of k _ rest "[]"] by (simp add: wf_set_refs)
next
  case (Inv_keep self v rest)
  then show ?thesis
    using wf_set_stack [OF w refl, of k _ rest "[]"] by simp
next
  case (Inv_user tag v rest)
  then show ?thesis
    using wf_set_stack [OF w refl, of k _ rest "[]"] by simp
next
  case (Outer proxy y rest s1 fs)
  from wf_top [OF w Outer(1,2)] have cb: "cb_wf s (UnwrapInner proxy)"
    by (simp add: cb_wf_def)
  note sub = wf_subscribe [OF Outer(4) w Outer(3) cb]
  from wf_set_stack [OF sub(1) sub(3) Outer(1,2) sub(2)] Outer(7)
  show ?thesis by (simp add: wf_set_refs)
next
  case (Inner proxy v rest)
  have "\<forall>f\<in>set [Drain proxy]. frame_wf (write_value proxy v s) f"
    using Inner(3) by (simp add: frame_wf_def)
  from wf_set_stack [OF wf_write_value [OF w] _ Inner(1,2) this] Inner(5)
  show ?thesis by simp
next
  case (Drain_done a rest)
  then show ?thesis
    using wf_set_stack [OF w refl, of k _ rest "[]"] by simp
next
  case (Drain_pop a rest cb q v)
  have all: "\<forall>c\<in>set (cb # q). cb_wf s c"
    using wf_listener [OF w Drain_pop(3)] Drain_pop(4) by simp
  then have w1: "wf (set_listeners a q s)"
    using wf_set_listeners [OF w Drain_pop(3), of q] by simp
  have "frame_wf s (Drain a)"
    using Drain_pop(3) by (simp add: frame_wf_def)
  with all have
    "\<forall>f\<in>set (Invoke cb v # map Drop (captured cb) @ [Drain a]). frame_wf (set_listeners a q s) f"
    by (auto intro: cb_wf_captured)
  from wf_set_stack [OF w1 _ Drain_pop(1,2) this] Drain_pop(6)
  show ?thesis by simp
next
  case (Worker_exit p rest)
  then show ?thesis
    using wf_set_stack [OF w refl, of k _ rest "[]"] by simp
next
  case (Worker_take p rest self q)
  let ?q = "(pools s ! p)\<lparr>taskCount := taskCount (pools s ! p) - 1, taskQueue := q\<rparr>"
  from wf_queued_task [OF w Worker_take(3)] Worker_take(4)
  have old: "\<forall>f\<in>set (Some self # q). \<exists>c<length (nodes s). f = Some c"
    by simp
  then have "\<forall>f\<in>set (taskQueue ?q). \<exists>c<length (nodes s). f = Some c"
    by simp
  from wf_set_pool [OF w Worker_take(3) this] have w1: "wf (set_pool p ?q s)" .
  have "\<forall>f\<in>set [CallFunctor self, Drop self, WorkerLoop p]. frame_wf (set_pool p ?q s) f"
    using old by (simp add: frame_wf_def)
  from wf_set_stack [OF w1 _ Worker_take(1,2) this] Worker_take(8)
  show ?thesis by simp
next
  case (Result self v rest)
  have "\<forall>f\<in>set [Drain self]. frame_wf (write_value self v s) f"
    using Result(3) by (simp add: frame_wf_def)
  from wf_set_stack [OF wf_write_value [OF w] _ Result(1,2) this] Result(5)
  show ?thesis by simp
qed


lemma wf_return:
  assumes "return k v s = Inr s'" and w: "wf s"
  shows "wf s'"
  using assms(1)
proof (cases rule: return_cases)
  case (Return self rest)
  have "\<forall>f\<in>set [SetResult self v]. frame_wf s f"
    using Return(3) by (simp add: frame_wf_def)
  from wf_set_stack [OF w refl Return(1,2) this] Return(5)
  show ?thesis by simp
qed

lemma wf_perform:
  assumes "perform c s = Inr s'" and w: "wf s"
  shows "wf s'"
  using assms(1)
proof (cases rule: perform_cases)
  case (Pool n)
  with w show ?thesis by (simp add: wf_new_pool)
next
  case (Default p)
  have "wf (s\<lparr>gDefaultTaskScheduler := p\<rparr>)"
    by (rule wf_nodes_same [OF w]) simp_all
  with Default show ?thesis by simp
next
  case (Leaf p)
  with w show ?thesis
    by (simp add: wf_alloc leaf_node_def Future_default_def)
next
  case (Composite p)
  let ?s = "alloc (composite p (length (parents_of c))) s"
  have w1: "wf ?s"
    using w by (rule wf_alloc) (simp add: composite_def Future_default_def)
  have "\<forall>f\<in>set [Ctor (length (nodes s)) (parents_of c) 0]. frame_wf ?s f"
    by (simp add: frame_wf_def composite_def)
  from wf_spawn [OF w1 this] Composite show ?thesis by simp
next
  case (LeafStart p)
  let ?s = "alloc (leaf_node (Some UserFunctor) p) s"
  have w1: "wf ?s"
    using w by (rule wf_alloc) (simp add: leaf_node_def Future_default_def)
  have "\<forall>f\<in>set [StartMark (length (nodes s))]. frame_wf ?s f"
    by (simp add: frame_wf_def)
  from wf_spawn [OF w1 this] LeafStart show ?thesis by simp
next
  case (FromValue p v)
  let ?s = "alloc (lifted_node v p) s"
  have w1: "wf ?s"
    using w by (rule wf_alloc) (simp add: lifted_node_def)
  have "\<forall>f\<in>set [Drain (length (nodes s))]. frame_wf ?s f"
    by (simp add: frame_wf_def)
  from wf_spawn [OF w1 this] FromValue show ?thesis by simp
next
  case (Start a)
  have "\<forall>f\<in>set [StartMark a]. frame_wf s f"
    using Start(2) by (simp add: frame_wf_def)
  from wf_spawn [OF w this] Start show ?thesis by simp
next
  case (Unwrap x p s1 fs)
  let ?s = "alloc (proxy_node p) s"
  have w1: "wf ?s"
    using w by (rule wf_alloc) (simp add: proxy_node_def Future_default_def)
  have x: "x < length (nodes ?s)"
    using Unwrap(2) by simp
  have cb: "cb_wf ?s (UnwrapOuter (length (nodes s)))"
    by (simp add: cb_wf_def)
  note sub = wf_subscribe [OF Unwrap(4) w1 x cb]
  from wf_spawn [OF sub(1,2)] Unwrap(5) show ?thesis by simp
next
  case (Subscribe a tag s1 fs)
  have cb: "cb_wf s (UserListener tag)"
    by (simp add: cb_wf_def)
  note sub = wf_subscribe [OF Subscribe(3) w Subscribe(2) cb]
  from wf_spawn [OF sub(1,2)] Subscribe(4) show ?thesis by simp
qed

lemma wf_exec: "exec a s = Inr s' \<Longrightarrow> wf s \<Longrightarrow> wf s'"
  by (cases a) (auto intro: wf_perform wf_step wf_return)

lemma wf_init: "wf init"
  by (simp add: wf_def wf_threads_def wf_queues_def wf_pools_def init_def)

lemma run_append:
  "run (xs @ ys) s = (case run xs s of Inl e \<Rightarrow> Inl e | Inr s' \<Rightarrow> run ys s')"
  by (induction xs arbitrary: s) (auto split: sum.splits)

lemma wf_run: "run as s = Inr s' \<Longrightarrow> wf s \<Longrightarrow> wf s'"
  by (induction as arbitrary: s) (auto split: sum.splits intro: wf_exec)


subsection \<open>What a run keeps\<close>

lemma extends_refl: "extends s s"
  by (simp add: extends_def)

lemma extends_trans: "extends s s1 \<Longrightarrow> extends s1 s2 \<Longrightarrow> extends s s2"
  unfolding extends_def by (metis (no_types, lifting) order_less_le_trans order_trans)

lemma extends_set_stack: "extends s s1 \<Longrightarrow> extends s (set_stack k st s1)"
  by (simp add: extends_def)

lemma extends_spawn: "extends s s1 \<Longrightarrow> extends s (spawn st s1)"
  by (simp add: extends_def)

lemma extends_set_pool: "extends s s1 \<Longrightarrow> extends s (set_pool p q s1)"
  by (simp add: extends_def)

lemma extends_new_pool: "extends s s1 \<Longrightarrow> extends s (new_pool n s1)"
  by (simp add: extends_def)

lemma extends_default: "extends s s1 \<Longrightarrow> extends s (s1\<lparr>gDefaultTaskScheduler := p\<rparr>)"
  by (simp add: extends_def)

lemma extends_set_listeners: "extends s s1 \<Longrightarrow> extends s (set_listeners a q s1)"
  by (simp add: extends_def)

lemma extends_set_started:
  "extends s s1 \<Longrightarrow> a < length (nodes s1) \<Longrightarrow> extends s (set_started a s1)"
  by (simp add: extends_def)

lemma extends_write_value:
  assumes "extends s s1" and "a < length (nodes s1)" and "fvalue s1 a = None"
  shows "extends s (write_value a v s1)"
proof -
  have "fvalue (write_value a v s1) b = Some w" if "fvalue s b = Some w" "b < length (nodes s)" for b w
  proof -
    from that assms(1) have "fvalue s1 b = Some w"
      by (simp add: extends_def)
    with assms(2,3) show ?thesis by auto
  qed
  with assms(1) show ?thesis
    by (simp add: extends_def)
qed

lemma extends_set_deps:
  assumes "extends s s1" and "a < length (nodes s1)"
    and "arity s1 a = Some (length (dependencies d))"
  shows "extends s (set_deps a d s1)"
proof -
  have "arity (set_deps a d s1) b = arity s1 b" for b
    using assms(2,3) by (cases "b = a") simp_all
  with assms(1) show ?thesis
    by (simp add: extends_def)
qed

lemma extends_set_refs: "extends s s1 \<Longrightarrow> extends s (set_refs a n s1)"
  by (simp add: extends_def)

lemma extends_recount: "extends s s1 \<Longrightarrow> extends s (recount ops s1)"
  by (simp add: extends_def)

lemma extends_alloc: "extends s s1 \<Longrightarrow> extends s (alloc n s1)"
  by (simp add: extends_def)

lemma extends_subscribe:
  "subscribe a cb s1 = Inr (s2, fs) \<Longrightarrow> extends s s1 \<Longrightarrow> extends s s2"
  by (erule subscribe_cases) (simp_all add: extends_set_listeners)

lemmas extends_intros = extends_set_stack extends_spawn extends_set_pool extends_new_pool
  extends_default extends_set_listeners extends_set_started extends_write_value
  extends_set_deps extends_alloc extends_set_refs extends_recount extends_refl

lemma extends_step:
  assumes "step k s = Inr s'"
  shows "extends s s'"
  using assms
proof (cases rule: step_cases)
  case (Ctor_sub self ps i rest parent s1 fs)
  from extends_subscribe [OF Ctor_sub(6) extends_refl] Ctor_sub(9)
  show ?thesis by (simp add: extends_set_stack extends_set_refs)
next
  case (Keep self rest s1 fs)
  from extends_subscribe [OF Keep(4) extends_refl] Keep(5)
  show ?thesis by (simp add: extends_set_stack)
next
  case (Outer proxy y rest s1 fs)
  from extends_subscribe [OF Outer(4) extends_refl] Outer(7)
  show ?thesis by (simp add: extends_set_stack extends_set_refs)
next
  case (Store self i parent v rest d ops)
  then show ?thesis
    by (auto intro!: extends_intros simp: arity_def)
next
  case (Dec_zero self rest d)
  then show ?thesis
    by (auto intro!: extends_intros simp: arity_def)
next
  case (Dec_more self rest d)
  then show ?thesis
    by (auto intro!: extends_intros simp: arity_def)
qed (auto intro!: extends_intros)

lemma extends_return: "return k v s = Inr s' \<Longrightarrow> extends s s'"
  by (erule return_cases) (auto intro!: extends_intros)

lemma extends_perform:
  assumes "perform c s = Inr s'"
  shows "extends s s'"
  using assms
proof (cases rule: perform_cases)
  case (Unwrap x p s1 fs)
  from extends_subscribe [OF Unwrap(4) extends_alloc [OF extends_refl]] Unwrap(5)
  show ?thesis by (simp add: extends_spawn)
next
  case (Subscribe a tag s1 fs)
  from extends_subscribe [OF Subscribe(3) extends_refl] Subscribe(4)
  show ?thesis by (simp add: extends_spawn)
qed (auto intro!: extends_intros)

lemma extends_exec: "exec a s = Inr s' \<Longrightarrow> extends s s'"
  by (cases a) (auto intro: extends_perform extends_step extends_return)

lemma extends_run: "run as s = Inr s' \<Longrightarrow> extends s s'"
proof (induction as arbitrary: s)
  case Nil
  then show ?case by (simp add: extends_refl)
next
  case (Cons a as)
  then show ?case
    by (auto split: sum.splits intro: extends_trans dest: extends_exec)
qed


lemma subscribe_nodes: "subscribe a cb s = Inr (s1, fs) \<Longrightarrow> length (nodes s1) = length (nodes s)"
  by (erule subscribe_cases) simp_all

lemma subscribe_pools: "subscribe a cb s = Inr (s1, fs) \<Longrightarrow> pools s1 = pools s"
  by (erule subscribe_cases) simp_all

lemma subscribe_threads: "subscribe a cb s = Inr (s1, fs) \<Longrightarrow> threads s1 = threads s"
  by (erule subscribe_cases) simp_all

lemma step_nodes: "step k s = Inr s' \<Longrightarrow> length (nodes s') = length (nodes s)"
  by (erule step_cases) (simp_all add: subscribe_nodes)

lemma step_pools: "step k s = Inr s' \<Longrightarrow> length (pools s') = length (pools s)"
  by (erule step_cases) (simp_all add: subscribe_pools)

lemma return_nodes: "return k v s = Inr s' \<Longrightarrow> length (nodes s') = length (nodes s)"
  by (erule return_cases) simp_all

lemma scheds_ok_same:
  assumes "scheds_ok s" and "extends s s'" and "length (nodes s') = length (nodes s)"
  shows "scheds_ok s'"
  using assms by (auto simp: scheds_ok_def extends_def)

lemma scheds_ok_new:
  assumes "scheds_ok s" and "extends s s'" and "length (nodes s') = Suc (length (nodes s))"
    and "sched_of s' (length (nodes s)) < length (pools s')"
  shows "scheds_ok s'"
  using assms by (auto simp: scheds_ok_def extends_def less_Suc_eq)

lemma subscribe_sched_of: "subscribe a cb s = Inr (s1, fs) \<Longrightarrow> sched_of s1 = sched_of s"
  by (erule subscribe_cases) simp_all

lemma scheds_ok_perform:
  assumes "perform c s = Inr s'" and ok: "scheds_ok s"
  shows "scheds_ok s'"
proof -
  note ext = extends_perform [OF assms(1)]
  from assms(1) show ?thesis
  proof (cases rule: perform_cases)
    case (Pool n)
    with ok ext show ?thesis by (intro scheds_ok_same [OF ok ext]) simp
  next
    case (Default p)
    with ok ext show ?thesis by (intro scheds_ok_same [OF ok ext]) simp
  next
    case (Leaf p)
    then show ?thesis by (intro scheds_ok_new [OF ok ext]) (simp_all add: leaf_node_def)
  next
    case (Composite p)
    then show ?thesis by (intro scheds_ok_new [OF ok ext]) (simp_all add: composite_def)
  next
    case (LeafStart p)
    then show ?thesis by (intro scheds_ok_new [OF ok ext]) (simp_all add: leaf_node_def)
  next
    case (FromValue p v)
    then show ?thesis by (intro scheds_ok_new [OF ok ext]) (simp_all add: lifted_node_def)
  next
    case (Start a)
    then show ?thesis by (intro scheds_ok_same [OF ok ext]) simp
  next
    case (Unwrap x p s1 fs)
    then show ?thesis
      by (intro scheds_ok_new [OF ok ext])
         (simp_all add: subscribe_nodes subscribe_pools subscribe_sched_of proxy_node_def)
  next
    case (Subscribe a tag s1 fs)
    then show ?thesis
      by (intro scheds_ok_same [OF ok ext]) (simp add: subscribe_nodes)
  qed
qed

lemma scheds_ok_exec: "exec a s = Inr s' \<Longrightarrow> scheds_ok s \<Longrightarrow> scheds_ok s'"
proof (cases a)
  case (User c)
  then show "exec a s = Inr s' \<Longrightarrow> scheds_ok s \<Longrightarrow> ?thesis"
    by (auto intro: scheds_ok_perform)
next
  case (Step k)
  then show "exec a s = Inr s' \<Longrightarrow> scheds_ok s \<Longrightarrow> ?thesis"
    by (auto intro: scheds_ok_same extends_step step_nodes)
next
  case (Return k v)
  then show "exec a s = Inr s' \<Longrightarrow> scheds_ok s \<Longrightarrow> ?thesis"
    by (auto intro: scheds_ok_same extends_return return_nodes)
qed

lemma scheds_ok_run: "run as s = Inr s' \<Longrightarrow> scheds_ok s \<Longrightarrow> scheds_ok s'"
  by (induction as arbitrary: s) (auto split: sum.splits intro: scheds_ok_exec)

lemma scheds_ok_init: "scheds_ok init"
  by (simp add: scheds_ok_def init_def)

lemma GetScheduler_valid:
  "a < length (nodes s) \<Longrightarrow> GetScheduler s (Some a) = Inr (sched_of s a)"
  by (simp add: GetScheduler_def deref_def sched_of_def)

lemma extends_GetScheduler:
  "extends s s' \<Longrightarrow> a < length (nodes s) \<Longrightarrow> GetScheduler s' (Some a) = GetScheduler s (Some a)"
  by (simp add: GetScheduler_valid extends_def)

lemma Then_eq:
  assumes "t < length (nodes s)" and "sched_of s t < length (pools s)"
    and "\<forall>p. sch = Some p \<longrightarrow> p < length (pools s)"
  shows "Then (Some t) sch s =
           Inr (spawn [Ctor (length (nodes s)) [Some t] 0]
                  (alloc (composite (case sch of None \<Rightarrow> sched_of s t | Some p \<Rightarrow> p) 1) s))"
  using assms
  by (cases sch)
     (simp_all add: Then_def GetScheduler_valid MakeTask_def resolve_def MakeTaskImpl_eq)

text \<open>
  In a state that a run of the library has reached, a call of \<open>Then\<close> on a task \<open>t\<close>,
  with no scheduler or with a scheduler that exists, allocates a composite node whose
  only parent is \<open>t\<close>, bound to the scheduler of \<open>t\<close> or to the given one, with
  \<^verbatim>\<open>refCount\<close> 0, and leaves its constructor to a new thread. In every run that goes on
  from there without an error the node keeps its scheduler.
\<close>

lemma Then_allocates:
  assumes "run pre init = Inr s" and "t < length (nodes s)"
    and "\<forall>p. sch = Some p \<longrightarrow> p < length (pools s)"
  shows "\<exists>s'. exec (User (CThen (Some t) sch)) s = Inr s' \<and>
           length (nodes s') = Suc (length (nodes s)) \<and>
           threads s' = threads s @ [[Ctor (length (nodes s)) [Some t] 0]] \<and>
           arity s' (length (nodes s)) = Some 1 \<and>
           refs s' (length (nodes s)) = 0 \<and>
           GetScheduler s' (Some (length (nodes s))) =
             (case sch of None \<Rightarrow> GetScheduler s (Some t) | Some p \<Rightarrow> Inr p) \<and>
           (\<forall>as s''. run as s' = Inr s'' \<longrightarrow>
              GetScheduler s'' (Some (length (nodes s))) =
                GetScheduler s' (Some (length (nodes s))))"
proof -
  let ?q = "case sch of None \<Rightarrow> sched_of s t | Some p \<Rightarrow> p"
  let ?s' = "spawn [Ctor (length (nodes s)) [Some t] 0] (alloc (composite ?q 1) s)"
  have "scheds_ok s"
    using scheds_ok_run [OF assms(1) scheds_ok_init] .
  with assms(2) have "sched_of s t < length (pools s)"
    by (simp add: scheds_ok_def)
  with assms(2,3) have ex: "exec (User (CThen (Some t) sch)) s = Inr ?s'"
    by (simp add: Then_eq)
  have n: "length (nodes ?s') = Suc (length (nodes s))"
    "threads ?s' = threads s @ [[Ctor (length (nodes s)) [Some t] 0]]"
    by simp_all
  have d: "arity ?s' (length (nodes s)) = Some 1" "refs ?s' (length (nodes s)) = 0"
    by (simp_all add: composite_def)
  have g: "GetScheduler ?s' (Some (length (nodes s))) =
             (case sch of None \<Rightarrow> GetScheduler s (Some t) | Some p \<Rightarrow> Inr p)"
    using assms(2) by (cases sch) (simp_all add: GetScheduler_valid composite_def)
  have later: "GetScheduler s'' (Some (length (nodes s))) =
                 GetScheduler ?s' (Some (length (nodes s)))"
    if "run as ?s' = Inr s''" for as s''
    using extends_GetScheduler [OF extends_run [OF that]] by simp
  from ex n d g later show ?thesis by blast
qed

lemmas step_defs = step_def add_ref_def release_def AddRef_def Release_def assign_def
  subscribe_def Subscribe_locked_def SetValue_locked_def Pop_locked_def IsReadyInternal_def
  GetValueInternal_def MarkAsStarted_def deref_def WorkerThreadRoutine_locked_def Schedule_def
  return_def set_future_def set_deps_def set_node_def set_pool_def set_stack_def

lemmas call_defs = NewPool_def MakeTask_def MakeTaskImpl_def MakeTaskAndStart_def
  MakeTaskFromValue_def Then_def Unwrap_def Unwrap0_def Start_def Subscribe_def GetScheduler_def
  resolve_def leaf_def composite_def Future_default_def spawn_def alloc_def init_def

text \<open>
  Claim C7. A pool with one worker is made, and a task \<open>t\<close> (the node 0) that is Ready
  from its construction. \<open>Then\<close> is called on \<open>t\<close> with no scheduler: the new node 1 is
  bound to the scheduler of \<open>t\<close>, and its constructor (the thread 2) finds \<open>t\<close> Ready and
  calls the listener at once, which stores \<open>t\<close>, brings the count to zero and calls
  \<^verbatim>\<open>Start\<close>. The worker (the thread 0) takes the job, calls the callable, which returns
  \<open>w\<close>, sets the value, calls the listener of the node and drops its reference. Now the
  only reference to the node 1 is that of the listener in the constructor, which has
  not returned: the thread 2 is still to destroy the listener and then to give the
  caller its reference. Its next step deletes the node: \<open>Then\<close> returns a handle to a
  node that is no more, and there is no \<open>GetScheduler\<close> of it.
\<close>

theorem Then_on_ready_task_deletes_node:
  "\<exists>s. run [User (CNewPool 1), User (CMakeTaskFromValue (Val v) (Some 0)), Step 1,
            User (CThen (Some 0) None),
            Step 2, Step 2, Step 2, Step 2, Step 2, Step 2, Step 2,
            Step 0, Return 0 (Val w), Step 0, Step 0, Step 0, Step 0, Step 0] init = Inr s \<and>
       fvalue s 0 = Some (Val v) \<and>
       GetScheduler s (Some 1) = GetScheduler s (Some 0) \<and>
       fvalue s 1 = Some (Val w) \<and>
       threads s = [[WorkerLoop 0], [], [Drop 1, Ctor 1 [Some 0] 1]] \<and>
       refs s 1 = 1 \<and>
       exec (Step 2) s = Inl (Deleted 1)"
proof -
  let ?s = "\<lparr>nodes =
        [\<lparr>refCount = 2, future = \<lparr>value' = Some (Val v), onValueAvailable = []\<rparr>,
          functor' = None, scheduler = 0, isStarted = True, spDeps = None\<rparr>,
         \<lparr>refCount = 1, future = \<lparr>value' = Some (Val w), onValueAvailable = []\<rparr>,
          functor' = Some DepsThunk, scheduler = 0, isStarted = True,
          spDeps = Some \<lparr>pendingDependencyCount = 0, dependencies = [Some 0]\<rparr>\<rparr>],
      pools = [\<lparr>taskQueue = [], taskCount = 0, isRunning = True\<rparr>],
      threads = [[WorkerLoop 0], [], [Drop 1, Ctor 1 [Some 0] 1]],
      gDefaultTaskScheduler = None\<rparr> :: 'a system"
  have "run [User (CNewPool 1), User (CMakeTaskFromValue (Val v) (Some 0)), Step 1,
            User (CThen (Some 0) None),
            Step 2, Step 2, Step 2, Step 2, Step 2, Step 2, Step 2,
            Step 0, Return 0 (Val w), Step 0, Step 0, Step 0, Step 0, Step 0] init = Inr ?s"
    by (simp add: step_defs call_defs)
  moreover have "fvalue ?s 0 = Some (Val v)" "fvalue ?s 1 = Some (Val w)" "refs ?s 1 = 1"
    "GetScheduler ?s (Some 1) = GetScheduler ?s (Some 0)"
    by (simp_all add: fvalue_def refs_def GetScheduler_def deref_def)
  moreover have "exec (Step 2) ?s = Inl (Deleted 1)"
    by (simp add: step_defs)
  ultimately show ?thesis by simp
qed


lemma Unwrap_eq:
  assumes "x < length (nodes s)" and "p < length (pools s)"
  shows "Unwrap (Some x) (Some p) s =
           (case fvalue s x of
              None \<Rightarrow>
                Inr (spawn []
                       (set_listeners x (listeners s x @ [UnwrapOuter (length (nodes s))])
                          (alloc (proxy_node p) s)))
            | Some v \<Rightarrow>
                Inr (spawn [Invoke (UnwrapOuter (length (nodes s))) v, Drop (length (nodes s))]
                       (alloc (proxy_node p) s)))"
  using assms
  by (simp add: Unwrap_def resolve_def MarkAsStarted_def AddRef_def leaf_def proxy_node_def
      deref_def subscribe_eq split: option.splits)

lemma Unwrap_result:
  assumes "x < length (nodes s)" and "p < length (pools s)"
  shows "\<exists>s'. Unwrap (Some x) (Some p) s = Inr s' \<and>
           length (nodes s') = Suc (length (nodes s)) \<and>
           sched_of s' (length (nodes s)) = p \<and>
           functor_of s' (length (nodes s)) = None \<and>
           started s' (length (nodes s))"
  using assms
  by (cases "fvalue s x") (simp_all add: Unwrap_eq proxy_node_def)

text \<open>
  Claim C9. In a state that a run of the library has reached, \<open>x\<close> is a task and \<open>p\<close> a
  scheduler. \<open>Unwrap()\<close> on \<open>x\<close> succeeds and makes a new node, the proxy, whose
  \<open>GetScheduler\<close> is that of \<open>x\<close>; \<open>Unwrap(p)\<close> succeeds and makes a proxy bound to \<open>p\<close>.
  In both cases the producer of the proxy is empty and the proxy is marked as started.
\<close>

theorem Unwrap_binds_scheduler:
  assumes "run pre init = Inr s" and "x < length (nodes s)" and "p < length (pools s)"
  shows "(\<exists>s'. exec (User (CUnwrap0 (Some x))) s = Inr s' \<and>
            length (nodes s') = Suc (length (nodes s)) \<and>
            GetScheduler s' (Some (length (nodes s))) = GetScheduler s (Some x) \<and>
            functor_of s' (length (nodes s)) = None \<and>
            started s' (length (nodes s))) \<and>
         (\<exists>s'. exec (User (CUnwrap (Some x) (Some p))) s = Inr s' \<and>
            length (nodes s') = Suc (length (nodes s)) \<and>
            GetScheduler s' (Some (length (nodes s))) = Inr p \<and>
            functor_of s' (length (nodes s)) = None \<and>
            started s' (length (nodes s)))"
proof -
  have "scheds_ok s"
    using scheds_ok_run [OF assms(1) scheds_ok_init] .
  with assms(2) have q: "sched_of s x < length (pools s)"
    by (simp add: scheds_ok_def)
  have own: "exec (User (CUnwrap0 (Some x))) s = Unwrap (Some x) (Some (sched_of s x)) s"
    using assms(2) by (simp add: Unwrap0_def GetScheduler_valid)
  from Unwrap_result [OF assms(2) q] obtain s1 where
    "Unwrap (Some x) (Some (sched_of s x)) s = Inr s1"
    "length (nodes s1) = Suc (length (nodes s))"
    "sched_of s1 (length (nodes s)) = sched_of s x"
    "functor_of s1 (length (nodes s)) = None" "started s1 (length (nodes s))"
    by blast
  with own assms(2) have first:
    "\<exists>s'. exec (User (CUnwrap0 (Some x))) s = Inr s' \<and>
       length (nodes s') = Suc (length (nodes s)) \<and>
       GetScheduler s' (Some (length (nodes s))) = GetScheduler s (Some x) \<and>
       functor_of s' (length (nodes s)) = None \<and>
       started s' (length (nodes s))"
    by (auto simp: GetScheduler_valid)
  from Unwrap_result [OF assms(2,3)] obtain s2 where
    "Unwrap (Some x) (Some p) s = Inr s2"
    "length (nodes s2) = Suc (length (nodes s))"
    "sched_of s2 (length (nodes s)) = p"
    "functor_of s2 (length (nodes s)) = None" "started s2 (length (nodes s))"
    by blast
  then have second:
    "\<exists>s'. exec (User (CUnwrap (Some x) (Some p))) s = Inr s' \<and>
       length (nodes s') = Suc (length (nodes s)) \<and>
       GetScheduler s' (Some (length (nodes s))) = Inr p \<and>
       functor_of s' (length (nodes s)) = None \<and>
       started s' (length (nodes s))"
    by (auto simp: GetScheduler_valid)
  from first second show ?thesis by blast
qed

theorem Unwrap_binds_scheduler_witness:
  "(case run [User (CNewPool 1), User (CNewPool 1), User (CMakeTask (Some 0) [])]
           (init :: unit system) of
      Inl e \<Rightarrow> False
    | Inr s \<Rightarrow>
        0 < length (nodes s) \<and> 1 < length (pools s) \<and>
        (\<exists>s'. exec (User (CUnwrap0 (Some 0))) s = Inr s' \<and>
           GetScheduler s' (Some (length (nodes s))) = GetScheduler s (Some 0) \<and>
           functor_of s' (length (nodes s)) = None \<and> started s' (length (nodes s))) \<and>
        (\<exists>s'. exec (User (CUnwrap (Some 0) (Some 1))) s = Inr s' \<and>
           GetScheduler s' (Some (length (nodes s))) = Inr 1 \<and>
           functor_of s' (length (nodes s)) = None \<and> started s' (length (nodes s))))"
proof -
  let ?s = "\<lparr>nodes = [leaf_node (Some UserFunctor) 0],
             pools = [\<lparr>taskQueue = [], taskCount = 0, isRunning = True\<rparr>,
                      \<lparr>taskQueue = [], taskCount = 0, isRunning = True\<rparr>],
             threads = [[WorkerLoop 0], [WorkerLoop 1]],
             gDefaultTaskScheduler = None\<rparr> :: unit system"
  have r: "run [User (CNewPool 1), User (CNewPool 1), User (CMakeTask (Some 0) [])]
             (init :: unit system) = Inr ?s"
    by (simp add: NewPool_def MakeTask_def resolve_def MakeTaskImpl_eq alloc_def init_def)
  have x: "0 < length (nodes ?s)" by simp
  have p: "1 < length (pools ?s)" by simp
  from Unwrap_binds_scheduler [OF r x p] show ?thesis
    by (simp only: r sum.case) (use x p in blast)
qed

lemma GetValue_fvalue: "GetValue (future (nodes s ! a)) = fvalue s a"
  by (simp add: GetValue_def fvalue_def)

lemma Start_on_started:
  assumes "a < length (nodes s)" and "started s a"
  shows "run [User (CStart (Some a)), Step (length (threads s))] s = Inl (AlreadyStarted a)"
  using assms
  by (simp add: Start_def deref_def step_def MarkAsStarted_def started_def)

text \<open>
  Claim C10. \<open>MakeTaskFromValue v p\<close> with a scheduler \<open>p\<close> that exists succeeds and makes
  a new node that is marked as started and whose future holds \<open>v\<close>, so that \<open>GetValue\<close>
  returns \<open>v\<close> without blocking. Whatever runs afterwards, the node stays started and
  its value stays \<open>v\<close>, and a call of \<open>Start\<close> on it fails the assertion of
  \<open>MarkAsStarted\<close> at its first step.
\<close>

theorem MakeTaskFromValue_started:
  assumes "p < length (pools s)"
  shows "\<exists>s'. exec (User (CMakeTaskFromValue v (Some p))) s = Inr s' \<and>
           length (nodes s') = Suc (length (nodes s)) \<and>
           started s' (length (nodes s)) \<and>
           functor_of s' (length (nodes s)) = None \<and>
           GetValue (future (nodes s' ! length (nodes s))) = Some v \<and>
           (\<forall>as s''. run as s' = Inr s'' \<longrightarrow>
              started s'' (length (nodes s)) \<and>
              GetValue (future (nodes s'' ! length (nodes s))) = Some v \<and>
              run [User (CStart (Some (length (nodes s)))), Step (length (threads s''))] s'' =
                Inl (AlreadyStarted (length (nodes s))))"
proof -
  let ?n = "length (nodes s)"
  let ?s' = "spawn [Drain ?n] (alloc (lifted_node v p) s)"
  have ex: "exec (User (CMakeTaskFromValue v (Some p))) s = Inr ?s'"
    using assms
    by (simp add: MakeTaskFromValue_def MarkAsStarted_def AddRef_def leaf_def
        SetValue_locked_def Future_default_def lifted_node_def)
  have now: "length (nodes ?s') = Suc ?n" "started ?s' ?n" "functor_of ?s' ?n = None"
    "fvalue ?s' ?n = Some v"
    by (simp_all add: lifted_node_def)
  have later: "started s'' ?n \<and> fvalue s'' ?n = Some v \<and>
      run [User (CStart (Some ?n)), Step (length (threads s''))] s'' = Inl (AlreadyStarted ?n)"
    if "run as ?s' = Inr s''" for as s''
  proof -
    from extends_run [OF that] now have
      "?n < length (nodes s'')" "started s'' ?n" "fvalue s'' ?n = Some v"
      by (auto simp: extends_def)
    then show ?thesis using Start_on_started [of ?n s''] by blast
  qed
  from ex now later show ?thesis
    by (simp only: GetValue_fvalue) blast
qed

theorem MakeTaskFromValue_started_witness:
  "(0::nat) < length (pools (\<lparr>nodes = [], pools = [\<lparr>taskQueue = [], taskCount = 0, isRunning = True\<rparr>],
       threads = [[WorkerLoop 0]], gDefaultTaskScheduler = None\<rparr> :: nat system)) \<and>
   (\<exists>s'. exec (User (CMakeTaskFromValue (Val (7::nat)) (Some 0)))
             \<lparr>nodes = [], pools = [\<lparr>taskQueue = [], taskCount = 0, isRunning = True\<rparr>],
              threads = [[WorkerLoop 0]], gDefaultTaskScheduler = None\<rparr> = Inr s' \<and>
      started s' 0 \<and> GetValue (future (nodes s' ! 0)) = Some (Val 7) \<and>
      run [] s' = Inr s' \<and>
      run [User (CStart (Some 0)), Step (length (threads s'))] s' = Inl (AlreadyStarted 0))"
proof -
  let ?s = "\<lparr>nodes = [], pools = [\<lparr>taskQueue = [], taskCount = 0, isRunning = True\<rparr>],
             threads = [[WorkerLoop 0]], gDefaultTaskScheduler = None\<rparr> :: nat system"
  have p: "0 < length (pools ?s)" by simp
  from MakeTaskFromValue_started [OF p, of "Val 7"] obtain s' where
    a: "exec (User (CMakeTaskFromValue (Val 7) (Some 0))) ?s = Inr s'"
      "started s' (length (nodes ?s))"
      "GetValue (future (nodes s' ! length (nodes ?s))) = Some (Val 7)" and
    b: "\<forall>as s''. run as s' = Inr s'' \<longrightarrow>
          run [User (CStart (Some (length (nodes ?s)))), Step (length (threads s''))] s'' =
            Inl (AlreadyStarted (length (nodes ?s)))"
    by blast
  have "run [] s' = Inr s'" by simp
  with b have "run [User (CStart (Some (length (nodes ?s)))), Step (length (threads s'))] s' =
                 Inl (AlreadyStarted (length (nodes ?s)))"
    by blast
  with a p show ?thesis
    by (intro conjI exI [of _ s']) simp_all
qed


subsection \<open>Counting frames and queued listeners\<close>

lemma sum_list_update_int:
  "k < length xs \<Longrightarrow>
   (\<Sum>x\<leftarrow>xs[k := y]. (f x :: int)) = (\<Sum>x\<leftarrow>xs. f x) - f (xs ! k) + f y"
proof (induction xs arbitrary: k)
  case Nil
  then show ?case by simp
next
  case (Cons x xs)
  then show ?case by (cases k) simp_all
qed

lemma total_set_stack:
  "k < length (threads s) \<Longrightarrow>
   total g (set_stack k st s) = total g s - (\<Sum>fr\<leftarrow>threads s ! k. g fr) + (\<Sum>fr\<leftarrow>st. g fr)"
  by (simp add: total_def sum_list_update_int)

lemma total_top:
  assumes "k < length (threads s)" and "threads s ! k = fr # rest"
  shows "total g (set_stack k (new @ rest) s) = total g s - g fr + (\<Sum>f\<leftarrow>new. g f)"
  using assms by (simp add: total_set_stack)

lemma total_same: "threads s' = threads s \<Longrightarrow> total g s' = total g s"
  by (simp add: total_def)

lemma total_simps [simp]:
  "total g (spawn st s) = total g s + (\<Sum>fr\<leftarrow>st. g fr)"
  "total g (set_pool p q s) = total g s"
  "total g (s\<lparr>gDefaultTaskScheduler := p'\<rparr>) = total g s"
  "total g (set_listeners a l s) = total g s"
  "total g (write_value a v s) = total g s"
  "total g (set_deps a d s) = total g s"
  "total g (set_started a s) = total g s"
  "total g (set_refs a m s) = total g s"
  "total g (recount ops s) = total g s"
  "total g (alloc n s) = total g s"
  by (simp_all add: total_def)

lemma total_new_pool [simp]:
  "total g (new_pool n s) = total g s + int n * g (WorkerLoop (length (pools s)))"
  by (simp add: total_def sum_list_replicate)

lemma totalq_nodes: "nodes s' = nodes s \<Longrightarrow> totalq g s' = totalq g s"
  by (simp add: totalq_def)

lemma totalq_simps [simp]:
  "totalq g (set_stack k st s) = totalq g s"
  "totalq g (spawn st s) = totalq g s"
  "totalq g (set_pool p q s) = totalq g s"
  "totalq g (new_pool m s) = totalq g s"
  "totalq g (s\<lparr>gDefaultTaskScheduler := p'\<rparr>) = totalq g s"
  by (rule totalq_nodes; simp)+

lemma totalq_alloc [simp]:
  "totalq g (alloc n s) = totalq g s + (\<Sum>cb\<leftarrow>onValueAvailable (future n). g cb)"
  by (simp add: totalq_def alloc_def)

lemma totalq_update:
  assumes "a < length (nodes s)"
  shows "totalq g (s\<lparr>nodes := (nodes s)[a := n]\<rparr>) =
           totalq g s - (\<Sum>cb\<leftarrow>listeners s a. g cb) + (\<Sum>cb\<leftarrow>onValueAvailable (future n). g cb)"
  using assms
  by (simp add: totalq_def listeners_def
      sum_list_update_int [of a "nodes s" "\<lambda>n. \<Sum>cb\<leftarrow>onValueAvailable (future n). g cb"])

lemma totalq_set_listeners:
  "a < length (nodes s) \<Longrightarrow>
   totalq g (set_listeners a q s) = totalq g s - (\<Sum>cb\<leftarrow>listeners s a. g cb) + (\<Sum>cb\<leftarrow>q. g cb)"
  by (simp add: set_listeners_def set_future_def totalq_update)

lemma totalq_keep:
  "totalq g (write_value a v s) = totalq g s"
  "totalq g (set_deps a d s) = totalq g s"
  "totalq g (set_started a s) = totalq g s"
  "totalq g (set_refs a m s) = totalq g s"
proof -
  have same: "totalq g (s\<lparr>nodes := (nodes s)[a := n]\<rparr>) = totalq g s"
    if "onValueAvailable (future n) = listeners s a" for n
  proof (cases "a < length (nodes s)")
    case True
    with that show ?thesis by (simp add: totalq_update)
  next
    case False
    then show ?thesis by (simp add: totalq_def list_update_beyond)
  qed
  show "totalq g (write_value a v s) = totalq g s"
    by (simp add: write_value_def set_future_def same listeners_def)
  show "totalq g (set_deps a d s) = totalq g s"
    by (simp add: set_deps_def same listeners_def)
  show "totalq g (set_started a s) = totalq g s"
    by (simp add: set_started_def set_node_def same listeners_def)
  show "totalq g (set_refs a m s) = totalq g s"
    by (simp add: set_refs_def set_node_def same listeners_def)
qed

declare totalq_keep [simp]

lemma totalq_recount [simp]: "totalq g (recount ops s) = totalq g s"
  by (induction ops arbitrary: s) (simp_all add: split_paired_all)

lemma total_nonneg: "(\<And>fr. 0 \<le> g fr) \<Longrightarrow> 0 \<le> total g s"
  by (auto simp: total_def intro!: sum_list_nonneg)

lemma totalq_nonneg: "(\<And>cb. 0 \<le> g cb) \<Longrightarrow> 0 \<le> totalq g s"
  by (auto simp: totalq_def intro!: sum_list_nonneg)

lemma sum_list_all_zero: "\<forall>x\<in>set xs. f x = (0::int) \<Longrightarrow> (\<Sum>x\<leftarrow>xs. f x) = 0"
  by (induction xs) simp_all

text \<open>A sum is zero when every frame, or every queued listener, counts zero.\<close>

lemma total_zero:
  assumes "\<forall>k<length (threads s). \<forall>fr\<in>set (threads s ! k). g fr = 0"
  shows "total g s = 0"
proof -
  have "\<forall>st\<in>set (threads s). (\<Sum>fr\<leftarrow>st. g fr) = 0"
  proof
    fix st assume "st \<in> set (threads s)"
    then obtain k where "k < length (threads s)" "threads s ! k = st"
      by (auto simp: in_set_conv_nth)
    with assms have "\<forall>fr\<in>set st. g fr = 0" by auto
    then show "(\<Sum>fr\<leftarrow>st. g fr) = 0" by (rule sum_list_all_zero)
  qed
  then show ?thesis
    unfolding total_def by (rule sum_list_all_zero)
qed

lemma totalq_zero:
  assumes "\<forall>a<length (nodes s). \<forall>cb\<in>set (listeners s a). g cb = 0"
  shows "totalq g s = 0"
proof -
  have "\<forall>n\<in>set (nodes s). (\<Sum>cb\<leftarrow>onValueAvailable (future n). g cb) = 0"
  proof
    fix n assume "n \<in> set (nodes s)"
    then obtain a where "a < length (nodes s)" "nodes s ! a = n"
      by (auto simp: in_set_conv_nth)
    with assms have "\<forall>cb\<in>set (onValueAvailable (future n)). g cb = 0"
      by (auto simp: listeners_def)
    then show "(\<Sum>cb\<leftarrow>onValueAvailable (future n). g cb) = 0"
      by (rule sum_list_all_zero)
  qed
  then show ?thesis
    unfolding totalq_def by (rule sum_list_all_zero)
qed

lemma sum_list_ge_member:
  "\<forall>x\<in>set xs. 0 \<le> f x \<Longrightarrow> y \<in> set xs \<Longrightarrow> f y \<le> (\<Sum>x\<leftarrow>xs. (f x :: int))"
proof (induction xs)
  case Nil
  then show ?case by simp
next
  case (Cons x xs)
  have "0 \<le> (\<Sum>x\<leftarrow>xs. f x)"
    using Cons.prems(1) by (auto intro!: sum_list_nonneg)
  with Cons show ?case by auto
qed

lemma total_ge:
  assumes "\<And>fr. 0 \<le> g fr" and "k < length (threads s)" and "fr \<in> set (threads s ! k)"
  shows "g fr \<le> total g s"
proof -
  have a: "g fr \<le> (\<Sum>f\<leftarrow>threads s ! k. g f)"
    using assms(1,3) by (intro sum_list_ge_member) auto
  have "(\<Sum>f\<leftarrow>threads s ! k. g f) \<le> (\<Sum>st\<leftarrow>threads s. \<Sum>f\<leftarrow>st. g f)"
    using assms(1,2)
    by (intro sum_list_ge_member [of "threads s" "\<lambda>st. \<Sum>f\<leftarrow>st. g f" "threads s ! k"])
       (auto intro!: sum_list_nonneg)
  with a show ?thesis by (simp add: total_def)
qed

lemma totalq_ge:
  assumes "\<And>cb. 0 \<le> h cb" and "a < length (nodes s)" and "cb \<in> set (listeners s a)"
  shows "h cb \<le> totalq h s"
proof -
  have a: "h cb \<le> (\<Sum>c\<leftarrow>listeners s a. h c)"
    using assms(1,3) by (intro sum_list_ge_member) auto
  have "(\<Sum>c\<leftarrow>onValueAvailable (future (nodes s ! a)). h c) \<le>
          (\<Sum>n\<leftarrow>nodes s. \<Sum>c\<leftarrow>onValueAvailable (future n). h c)"
    using assms(1,2)
    by (intro sum_list_ge_member
          [of "nodes s" "\<lambda>n. \<Sum>c\<leftarrow>onValueAvailable (future n). h c" "nodes s ! a"])
       (auto intro!: sum_list_nonneg)
  with a show ?thesis by (simp add: totalq_def listeners_def)
qed

subsection \<open>Counting frames and listeners together\<close>

lemma tally_simps [simp]:
  "tally g h (spawn st s) = tally g h s + (\<Sum>fr\<leftarrow>st. g fr)"
  "tally g h (set_pool p q s) = tally g h s"
  "tally g h (s\<lparr>gDefaultTaskScheduler := p'\<rparr>) = tally g h s"
  "tally g h (write_value a v s) = tally g h s"
  "tally g h (set_deps a d s) = tally g h s"
  "tally g h (set_started a s) = tally g h s"
  "tally g h (set_refs a m s) = tally g h s"
  "tally g h (recount ops s) = tally g h s"
  "tally g h (new_pool n s) = tally g h s + int n * g (WorkerLoop (length (pools s)))"
  "tally g h (alloc nd s) = tally g h s + (\<Sum>cb\<leftarrow>onValueAvailable (future nd). h cb)"
  by (simp_all add: tally_def)

lemma tally_top:
  assumes "k < length (threads s)" and "threads s ! k = fr # rest"
  shows "tally g h (set_stack k (new @ rest) s) = tally g h s - g fr + (\<Sum>f\<leftarrow>new. g f)"
  using assms by (simp add: tally_def total_top)

lemma tally_pop:
  assumes "k < length (threads s)" and "threads s ! k = fr # rest"
  shows "tally g h (set_stack k rest s) = tally g h s - g fr"
  using tally_top [OF assms, of g h "[]"] by simp

text \<open>
  A thread registers a listener and puts the frames it is given under the frames \<open>new\<close>:
  whether the listener was queued or is called, it counts once.
\<close>

lemma tally_subscribe:
  assumes "subscribe a cb s = Inr (s1, fs)" and "a < length (nodes s)" and "fits g h"
    and "k < length (threads s)" and "threads s ! k = fr # rest"
  shows "tally g h (set_stack k (fs @ new @ rest) s1) =
           tally g h s - g fr + h cb + (\<Sum>f\<leftarrow>new. g f)"
  using assms(1)
proof (cases rule: subscribe_cases)
  case queued
  have "tally g h (set_stack k (new @ rest) s1) =
          tally g h s1 - g fr + (\<Sum>f\<leftarrow>new. g f)"
    using assms(4,5) queued(2) by (intro tally_top) simp_all
  moreover have "tally g h s1 = tally g h s + h cb"
    using queued(2) assms(2) by (simp add: tally_def totalq_set_listeners)
  ultimately show ?thesis using queued(3) by simp
next
  case (ready v)
  have "tally g h (set_stack k ((fs @ new) @ rest) s) =
          tally g h s - g fr + (\<Sum>f\<leftarrow>fs @ new. g f)"
    using assms(4,5) by (rule tally_top)
  moreover have "(\<Sum>f\<leftarrow>fs. g f) = h cb"
    using assms(3) ready(3) by (simp add: fits_def comp_def)
  ultimately show ?thesis using ready(2) by simp
qed

lemma tally_subscribe_spawn:
  assumes "subscribe a cb s = Inr (s1, fs)" and "a < length (nodes s)" and "fits g h"
  shows "tally g h (spawn fs s1) = tally g h s + h cb"
  using assms(1)
proof (cases rule: subscribe_cases)
  case queued
  with assms(2) show ?thesis by (simp add: tally_def totalq_set_listeners)
next
  case (ready v)
  moreover have "(\<Sum>f\<leftarrow>fs. g f) = h cb"
    using assms(3) ready(3) by (simp add: fits_def comp_def)
  ultimately show ?thesis by simp
qed

text \<open>A thread takes a listener from a queue.\<close>

lemma tally_drain:
  assumes "a < length (nodes s)" and "listeners s a = cb # q" and "fits g h"
    and "k < length (threads s)" and "threads s ! k = fr # rest"
  shows "tally g h (set_stack k (Invoke cb v # map Drop (captured cb) @ new @ rest)
                      (set_listeners a q s)) =
           tally g h s - g fr + (\<Sum>f\<leftarrow>new. g f)"
proof -
  have "tally g h (set_stack k ((Invoke cb v # map Drop (captured cb) @ new) @ rest)
                     (set_listeners a q s)) =
          tally g h (set_listeners a q s) - g fr +
            (\<Sum>f\<leftarrow>Invoke cb v # map Drop (captured cb) @ new. g f)"
    using assms(4,5) by (intro tally_top) simp_all
  moreover have "tally g h (set_listeners a q s) = tally g h s - h cb"
    using assms(1,2) by (simp add: tally_def totalq_set_listeners)
  moreover have "g (Invoke cb v) + (\<Sum>f\<leftarrow>map Drop (captured cb). g f) = h cb"
    using assms(3) by (simp add: fits_def comp_def)
  ultimately show ?thesis by simp
qed

lemma tally_nonneg: "(\<And>fr. 0 \<le> g fr) \<Longrightarrow> (\<And>cb. 0 \<le> h cb) \<Longrightarrow> 0 \<le> tally g h s"
  by (simp add: tally_def total_nonneg totalq_nonneg)

lemma tally_zero:
  assumes "\<forall>k<length (threads s). \<forall>fr\<in>set (threads s ! k). g fr = 0"
    and "\<forall>a<length (nodes s). \<forall>cb\<in>set (listeners s a). h cb = 0"
  shows "tally g h s = 0"
  using assms by (simp add: tally_def total_zero totalq_zero)


subsection \<open>The count of a node and the pointers to it\<close>

lemma fits_owed [simp]: "fits (owed a) (captures a)"
  by (simp add: fits_def captures_def comp_def)

lemma captures_simps [simp]:
  "captures a (ParentReady self i parent) = (if self = a then 1 else 0)"
  "captures a (KeepDeps self) = 0"
  "captures a (UnwrapOuter proxy) = (if proxy = a then 1 else 0)"
  "captures a (UnwrapInner proxy) = (if proxy = a then 1 else 0)"
  "captures a (UserListener tag) = 0"
  by (simp_all add: captures_def)

lemma captures_nonneg: "0 \<le> captures a cb"
  by (cases cb) simp_all

lemma pooled_same: "pools s' = pools s \<Longrightarrow> pooled a s' = pooled a s"
  by (simp add: pooled_def)

lemma pooled_simps [simp]:
  "pooled a (set_stack k st s) = pooled a s"
  "pooled a (spawn st s) = pooled a s"
  "pooled a (s\<lparr>gDefaultTaskScheduler := p'\<rparr>) = pooled a s"
  "pooled a (set_listeners b l s) = pooled a s"
  "pooled a (write_value b v s) = pooled a s"
  "pooled a (set_deps b d s) = pooled a s"
  "pooled a (set_started b s) = pooled a s"
  "pooled a (set_refs b m s) = pooled a s"
  "pooled a (recount ops s) = pooled a s"
  "pooled a (alloc n s) = pooled a s"
  by (rule pooled_same; simp)+

lemma pooled_new_pool [simp]: "pooled a (new_pool n s) = pooled a s"
  by (simp add: pooled_def)

lemma pooled_set_pool:
  "p < length (pools s) \<Longrightarrow>
   pooled a (set_pool p q s) =
     pooled a s - (\<Sum>f\<leftarrow>taskQueue (pools s ! p). if f = Some a then 1 else 0)
       + (\<Sum>f\<leftarrow>taskQueue q. if f = Some a then 1 else 0)"
  by (simp add: pooled_def sum_list_update_int)

lemma pooled_nonneg: "0 \<le> pooled a s"
  by (auto simp: pooled_def intro!: sum_list_nonneg)

lemma pooled_ge:
  assumes "p < length (pools s)" and "Some a \<in> set (taskQueue (pools s ! p))"
  shows "1 \<le> pooled a s"
proof -
  have "(if Some a = Some a then 1 else 0) \<le>
          (\<Sum>f\<leftarrow>taskQueue (pools s ! p). if f = Some a then 1 else (0::int))"
    using assms(2) by (intro sum_list_ge_member) auto
  moreover have "(\<Sum>f\<leftarrow>taskQueue (pools s ! p). if f = Some a then 1 else (0::int)) \<le>
      (\<Sum>q\<leftarrow>pools s. \<Sum>f\<leftarrow>taskQueue q. if f = Some a then 1 else 0)"
    using assms(1)
    by (intro sum_list_ge_member
          [of "pools s" "\<lambda>q. \<Sum>f\<leftarrow>taskQueue q. if f = Some a then 1 else 0" "pools s ! p"])
       (auto intro!: sum_list_nonneg)
  ultimately show ?thesis by (simp add: pooled_def)
qed

lemma pooled_zero:
  assumes "\<forall>p<length (pools s). Some a \<notin> set (taskQueue (pools s ! p))"
  shows "pooled a s = 0"
proof -
  have "\<forall>q\<in>set (pools s). (\<Sum>f\<leftarrow>taskQueue q. if f = Some a then 1 else (0::int)) = 0"
  proof
    fix q assume "q \<in> set (pools s)"
    then obtain p where "p < length (pools s)" "pools s ! p = q"
      by (auto simp: in_set_conv_nth)
    with assms have "\<forall>f\<in>set (taskQueue q). (if f = Some a then 1 else (0::int)) = 0"
      by auto
    then show "(\<Sum>f\<leftarrow>taskQueue q. if f = Some a then 1 else (0::int)) = 0"
      by (rule sum_list_all_zero)
  qed
  then show ?thesis
    unfolding pooled_def by (rule sum_list_all_zero)
qed

lemma holds_nonneg: "0 \<le> holds a c"
  by (auto simp: holds_def split: option.splits intro!: sum_list_nonneg)

lemma slotted_update:
  assumes "b < length (nodes s)"
  shows "slotted a (s\<lparr>nodes := (nodes s)[b := n]\<rparr>) =
           slotted a s - holds a (deps_of s b) + holds a (spDeps n)"
  using assms
  by (simp add: slotted_def deps_of_def
      sum_list_update_int [of b "nodes s" "\<lambda>n. holds a (spDeps n)"])

lemma slotted_same:
  "nodes s' = nodes s \<Longrightarrow> slotted a s' = slotted a s"
  by (simp add: slotted_def)

lemma slotted_simps [simp]:
  "slotted a (set_stack k st s) = slotted a s"
  "slotted a (spawn st s) = slotted a s"
  "slotted a (set_pool p q s) = slotted a s"
  "slotted a (new_pool m s) = slotted a s"
  "slotted a (s\<lparr>gDefaultTaskScheduler := p'\<rparr>) = slotted a s"
  by (rule slotted_same; simp)+

lemma slotted_keep [simp]:
  "slotted a (write_value b v s) = slotted a s"
  "slotted a (set_listeners b l s) = slotted a s"
  "slotted a (set_started b s) = slotted a s"
  "slotted a (set_refs b m s) = slotted a s"
proof -
  have same: "slotted a (s\<lparr>nodes := (nodes s)[b := n]\<rparr>) = slotted a s"
    if "spDeps n = deps_of s b" for n
  proof (cases "b < length (nodes s)")
    case True
    with that show ?thesis by (simp add: slotted_update)
  next
    case False
    then show ?thesis by (simp add: slotted_def list_update_beyond)
  qed
  show "slotted a (write_value b v s) = slotted a s"
    by (simp add: write_value_def set_future_def same deps_of_def)
  show "slotted a (set_listeners b l s) = slotted a s"
    by (simp add: set_listeners_def set_future_def same deps_of_def)
  show "slotted a (set_started b s) = slotted a s"
    by (simp add: set_started_def set_node_def same deps_of_def)
  show "slotted a (set_refs b m s) = slotted a s"
    by (simp add: set_refs_def set_node_def same deps_of_def)
qed

lemma slotted_recount [simp]: "slotted a (recount ops s) = slotted a s"
  by (induction ops arbitrary: s) (simp_all add: split_paired_all)

lemma slotted_alloc [simp]: "slotted a (alloc n s) = slotted a s + holds a (spDeps n)"
  by (simp add: slotted_def alloc_def)

lemma slotted_set_deps:
  "b < length (nodes s) \<Longrightarrow>
   slotted a (set_deps b d s) = slotted a s - holds a (deps_of s b) + holds a (Some d)"
  by (simp add: set_deps_def slotted_update)

lemma slotted_nonneg: "0 \<le> slotted a s"
  by (auto simp: slotted_def intro!: sum_list_nonneg holds_nonneg)

lemma slotted_ge:
  assumes "b < length (nodes s)"
  shows "holds a (deps_of s b) \<le> slotted a s"
  using assms unfolding slotted_def deps_of_def
  by (intro sum_list_ge_member [of "nodes s" "\<lambda>n. holds a (spDeps n)" "nodes s ! b"])
     (auto intro!: holds_nonneg)

lemma holds_store:
  assumes "i < length (dependencies d)"
  shows "holds a (Some (d\<lparr>dependencies := (dependencies d)[i := Some p]\<rparr>)) =
           holds a (Some d) - (if dependencies d ! i = Some a then 1 else 0)
             + (if p = a then 1 else 0)"
  using assms by (auto simp: holds_def sum_list_update_int)

lemma holds_slot:
  assumes "i < length (dependencies d)"
  shows "(if dependencies d ! i = Some a then 1 else 0) \<le> holds a (Some d)"
  using assms unfolding holds_def option.case
  by (intro sum_list_ge_member
        [of "dependencies d" "\<lambda>x. if x = Some a then 1 else 0" "dependencies d ! i"]) auto

lemma assign_refs:
  assumes "assign old p s = Inr s1"
  shows "refs s1 a =
           refs s a + (if old = Some p then 0
                       else (if a = p then 1 else 0) - (if old = Some a then 1 else 0))"
proof (cases "old = Some p")
  case True
  with assms show ?thesis by (simp add: assign_def)
next
  case False
  show ?thesis
  proof (cases old)
    case None
    with assms False show ?thesis
      by (auto simp: assign_def add_ref_Inr)
  next
    case (Some b)
    with assms False show ?thesis
      by (auto simp: assign_def add_ref_Inr release_Inr split: sum.splits)
  qed
qed


lemma tally_set_stack:
  "k < length (threads s) \<Longrightarrow>
   tally g h (set_stack k st s) =
     tally g h s - (\<Sum>fr\<leftarrow>threads s ! k. g fr) + (\<Sum>fr\<leftarrow>st. g fr)"
  by (simp add: tally_def total_set_stack)

lemma tally_set_listeners:
  "a < length (nodes s) \<Longrightarrow>
   tally g h (set_listeners a q s) =
     tally g h s - (\<Sum>cb\<leftarrow>listeners s a. h cb) + (\<Sum>cb\<leftarrow>q. h cb)"
  by (simp add: tally_def totalq_set_listeners)

lemma owed_captured [simp]: "(\<Sum>b\<leftarrow>captured cb. owed a (Drop b)) = captures a cb"
  by (simp add: captures_def)

lemma owed_fresh:
  assumes "frame_wf s fr" and "length (nodes s) \<le> a"
  shows "owed a fr = 0"
  using assms by (cases fr) (auto simp: frame_wf_def)

lemma captures_fresh:
  assumes "cb_wf s cb" and "length (nodes s) \<le> a"
  shows "captures a cb = 0"
  using assms by (cases cb) (auto simp: cb_wf_def)

lemma fresh_unreferenced:
  assumes "wf s" and "length (nodes s) \<le> a"
  shows "tally (owed a) (captures a) s = 0" and "pooled a s = 0"
proof -
  from assms show "tally (owed a) (captures a) s = 0"
    by (intro tally_zero)
       (auto simp: wf_def wf_threads_def wf_queues_def
          intro!: owed_fresh [where s = s] captures_fresh [where s = s])
  from assms show "pooled a s = 0"
    by (intro pooled_zero) (fastforce simp: wf_def wf_pools_def)
qed

lemmas acc_simps = accounted_def tally_set_stack tally_set_listeners pooled_set_pool
  slotted_set_deps comp_def

lemma accounted_step:
  assumes "step k s = Inr s'" and w: "wf s" and acc: "accounted s"
  shows "accounted s'"
  using assms(1)
proof (cases rule: step_cases)
  case (Ctor_done self ps i rest)
  with acc show ?thesis
    by (auto simp: acc_simps)
next
  case (Ctor_sub self ps i rest parent s1 fs)
  from Ctor_sub(6) show ?thesis
  proof (cases rule: subscribe_cases)
    case queued
    with acc Ctor_sub show ?thesis
      by (auto simp: acc_simps)
  next
    case (ready v)
    with acc Ctor_sub show ?thesis
      by (auto simp: acc_simps)
  qed
next
  case (Store self i parent v rest d ops)
  from wf_top [OF w Store(1,2)] have p: "parent < length (nodes s)"
    by (simp add: cb_wf_def)
  let ?d = "d\<lparr>dependencies := (dependencies d)[i := Some parent]\<rparr>"
  have s': "s' = set_stack k (Decrement self # rest) (set_deps self ?d (recount ops s))"
    using Store(7) by (simp add: recount_commute)
  have r: "refs s' a = refs s a + (if dependencies d ! i = Some parent then 0
             else (if a = parent then 1 else 0) - (if dependencies d ! i = Some a then 1 else 0))"
    for a
    using assign_refs [OF Store(6), of a] by (simp add: s')
  have sl: "slotted a s' = slotted a s - (if dependencies d ! i = Some a then 1 else 0)
              + (if parent = a then 1 else 0)" for a
    using Store(3,4,5) by (simp add: s' slotted_set_deps holds_store)
  have t: "tally (owed a) (captures a) s' = tally (owed a) (captures a) s" for a
    using Store(1,2) by (simp add: s' tally_set_stack)
  have po: "pooled a s' = pooled a s" for a
    by (simp add: s')
  have n: "length (nodes s') = length (nodes s)"
    by (simp add: s')
  have old: "b < length (nodes s)" if "dependencies d ! i = Some b" for b
  proof (rule ccontr)
    assume "\<not> b < length (nodes s)"
    with acc have "slotted b s = 0"
      by (simp add: accounted_def)
    moreover have "1 \<le> holds b (deps_of s self)"
      using holds_slot [OF Store(5), of b] that Store(4) by simp
    ultimately show False
      using slotted_ge [OF Store(3), of b] by simp
  qed
  from acc p old show ?thesis
    unfolding accounted_def n r sl t po by auto
next
  case (Dec_zero self rest d)
  with acc show ?thesis
    by (auto simp: acc_simps holds_def)
next
  case (Dec_more self rest d)
  with acc show ?thesis
    by (auto simp: acc_simps holds_def)
next
  case (Keep self rest s1 fs)
  from Keep(4) show ?thesis
  proof (cases rule: subscribe_cases)
    case queued
    with acc Keep show ?thesis
      by (auto simp: acc_simps)
  next
    case (ready v)
    with acc Keep show ?thesis
      by (auto simp: acc_simps)
  qed
next
  case (Mark self rest)
  with acc show ?thesis
    by (auto simp: acc_simps)
next
  case (Sched self rest)
  with acc show ?thesis
    by (auto simp: acc_simps Schedule_def)
next
  case (Unref a rest)
  with acc show ?thesis
    by (auto simp: acc_simps)
next
  case (Inv_keep self v rest)
  with acc show ?thesis
    by (auto simp: acc_simps)
next
  case (Inv_user tag v rest)
  with acc show ?thesis
    by (auto simp: acc_simps)
next
  case (Outer proxy y rest s1 fs)
  from Outer(4) show ?thesis
  proof (cases rule: subscribe_cases)
    case queued
    with acc Outer show ?thesis
      by (auto simp: acc_simps)
  next
    case (ready v)
    with acc Outer show ?thesis
      by (auto simp: acc_simps)
  qed
next
  case (Inner proxy v rest)
  with acc show ?thesis
    by (auto simp: acc_simps)
next
  case (Drain_done a rest)
  with acc show ?thesis
    by (auto simp: acc_simps)
next
  case (Drain_pop a rest cb q v)
  with acc show ?thesis
    by (auto simp: acc_simps captures_def)
next
  case (Worker_exit p rest)
  with acc show ?thesis
    by (auto simp: acc_simps)
next
  case (Worker_take p rest self q)
  with acc show ?thesis
    by (auto simp: acc_simps)
next
  case (Result self v rest)
  with acc show ?thesis
    by (auto simp: acc_simps)
qed


lemma accounted_return:
  assumes "return k v s = Inr s'" and acc: "accounted s"
  shows "accounted s'"
  using assms(1)
proof (cases rule: return_cases)
  case (Return self rest)
  with acc show ?thesis
    by (auto simp: acc_simps)
qed

lemma accounted_alloc:
  assumes w: "wf s" and acc: "accounted s"
    and "onValueAvailable (future n) = []" and "holds (length (nodes s)) (spDeps n) = 0"
    and "\<forall>a. length (nodes s) < a \<longrightarrow> holds a (spDeps n) = 0"
    and "\<forall>a<length (nodes s). holds a (spDeps n) = 0"
    and "refCount n = 1 + extra"
  shows "\<forall>a<length (nodes (alloc n s)).
           refs (alloc n s) a - (if a = length (nodes s) then extra else 0) =
             1 + tally (owed a) (captures a) (alloc n s) + pooled a (alloc n s)
               + slotted a (alloc n s)"
    and "\<forall>a. length (nodes (alloc n s)) \<le> a \<longrightarrow> slotted a (alloc n s) = 0"
proof -
  show "\<forall>a<length (nodes (alloc n s)).
           refs (alloc n s) a - (if a = length (nodes s) then extra else 0) =
             1 + tally (owed a) (captures a) (alloc n s) + pooled a (alloc n s)
               + slotted a (alloc n s)"
  proof (intro allI impI)
    fix a assume "a < length (nodes (alloc n s))"
    then consider "a < length (nodes s)" | "a = length (nodes s)"
      by (auto simp: less_Suc_eq)
    then show "refs (alloc n s) a - (if a = length (nodes s) then extra else 0) =
             1 + tally (owed a) (captures a) (alloc n s) + pooled a (alloc n s)
               + slotted a (alloc n s)"
    proof cases
      case 1
      with acc assms(3,6) show ?thesis
        by (simp add: accounted_def)
    next
      case 2
      with acc assms(3,4,7) fresh_unreferenced [OF w, of a] show ?thesis
        by (simp add: accounted_def)
    qed
  qed
  from acc assms(5) show "\<forall>a. length (nodes (alloc n s)) \<le> a \<longrightarrow> slotted a (alloc n s) = 0"
    by (simp add: accounted_def)
qed

lemma holds_empty [simp]:
  "holds a None = 0"
  "holds a (Some \<lparr>pendingDependencyCount = c, dependencies = replicate m None\<rparr>) = 0"
  by (simp_all add: holds_def sum_list_replicate)

lemma accounted_perform:
  assumes "perform c s = Inr s'" and w: "wf s" and acc: "accounted s"
  shows "accounted s'"
  using assms(1)
proof (cases rule: perform_cases)
  case (Pool n)
  with acc show ?thesis by (auto simp: acc_simps)
next
  case (Default p)
  with acc show ?thesis by (auto simp: acc_simps)
next
  case (Leaf p)
  from accounted_alloc [OF w acc, of "leaf_node (Some UserFunctor) p" 0] Leaf(3)
  show ?thesis
    by (simp add: accounted_def leaf_node_def Future_default_def)
next
  case (Composite p)
  from accounted_alloc [OF w acc, of "composite p (length (parents_of c))" "- 1"] Composite(3)
  show ?thesis
    by (simp add: accounted_def composite_def Future_default_def) fastforce
next
  case (LeafStart p)
  from accounted_alloc [OF w acc, of "leaf_node (Some UserFunctor) p" 0] LeafStart(3)
  show ?thesis
    by (simp add: accounted_def leaf_node_def Future_default_def)
next
  case (FromValue p v)
  from accounted_alloc [OF w acc, of "lifted_node v p" 0] FromValue(3)
  show ?thesis
    by (simp add: accounted_def lifted_node_def)
next
  case (Start a)
  with acc show ?thesis by (auto simp: acc_simps)
next
  case (Unwrap x p s1 fs)
  let ?s = "alloc (proxy_node p) s"
  note al = accounted_alloc [OF w acc, of "proxy_node p" 1]
  have x: "x < length (nodes ?s)"
    using Unwrap(2) by simp
  have t: "tally (owed a) (captures a) (spawn fs s1) =
             tally (owed a) (captures a) ?s + captures a (UnwrapOuter (length (nodes s)))" for a
    by (rule tally_subscribe_spawn [OF Unwrap(4) x fits_owed])
  from Unwrap(4) have o: "refs s1 = refs ?s" "length (nodes s1) = length (nodes ?s)"
    "pooled a s1 = pooled a ?s" "slotted a s1 = slotted a ?s" for a
    by (cases rule: subscribe_cases; simp)+
  have al1: "\<forall>a<length (nodes ?s).
           refs ?s a - (if a = length (nodes s) then 1 else 0) =
             1 + tally (owed a) (captures a) ?s + pooled a ?s + slotted a ?s"
    and al2: "\<forall>a. length (nodes ?s) \<le> a \<longrightarrow> slotted a ?s = 0"
    using al by (simp_all add: proxy_node_def Future_default_def)
  show ?thesis
    unfolding accounted_def Unwrap(5)
  proof (intro conjI allI impI)
    fix a assume "a < length (nodes (spawn fs s1))"
    then have "a < length (nodes ?s)" by (simp add: o)
    with al1 have "refs ?s a - (if a = length (nodes s) then 1 else 0) =
             1 + tally (owed a) (captures a) ?s + pooled a ?s + slotted a ?s"
      by blast
    moreover have "refs (spawn fs s1) a = refs ?s a" "pooled a (spawn fs s1) = pooled a ?s"
      "slotted a (spawn fs s1) = slotted a ?s"
      by (simp_all add: o)
    ultimately show "refs (spawn fs s1) a =
        1 + tally (owed a) (captures a) (spawn fs s1) + pooled a (spawn fs s1)
          + slotted a (spawn fs s1)"
      unfolding t by auto
  next
    fix a assume "length (nodes (spawn fs s1)) \<le> a"
    then have "length (nodes ?s) \<le> a" by (simp add: o)
    with al2 have "slotted a ?s = 0" by blast
    then show "slotted a (spawn fs s1) = 0" by (simp add: o)
  qed
next
  case (Subscribe a tag s1 fs)
  have t: "tally (owed b) (captures b) (spawn fs s1) = tally (owed b) (captures b) s" for b
    using tally_subscribe_spawn [OF Subscribe(3,2) fits_owed, of b] by simp
  from Subscribe(3) have o: "refs s1 = refs s" "length (nodes s1) = length (nodes s)"
    "pooled b s1 = pooled b s" "slotted b s1 = slotted b s" for b
    by (cases rule: subscribe_cases; simp)+
  show ?thesis
    unfolding accounted_def Subscribe(4)
  proof (intro conjI allI impI)
    fix b assume "b < length (nodes (spawn fs s1))"
    then have "b < length (nodes s)" by (simp add: o)
    with acc have "refs s b = 1 + tally (owed b) (captures b) s + pooled b s + slotted b s"
      by (simp add: accounted_def)
    moreover have "refs (spawn fs s1) b = refs s b" "pooled b (spawn fs s1) = pooled b s"
      "slotted b (spawn fs s1) = slotted b s"
      by (simp_all add: o)
    ultimately show "refs (spawn fs s1) b =
        1 + tally (owed b) (captures b) (spawn fs s1) + pooled b (spawn fs s1)
          + slotted b (spawn fs s1)"
      unfolding t by simp
  next
    fix b assume "length (nodes (spawn fs s1)) \<le> b"
    then have "length (nodes s) \<le> b" by (simp add: o)
    with acc have "slotted b s = 0" by (simp add: accounted_def)
    then show "slotted b (spawn fs s1) = 0" by (simp add: o)
  qed
qed

lemma accounted_exec: "exec a s = Inr s' \<Longrightarrow> wf s \<Longrightarrow> accounted s \<Longrightarrow> accounted s'"
  by (cases a) (auto intro: accounted_perform accounted_step accounted_return)

lemma accounted_init: "accounted init"
  by (simp add: accounted_def init_def slotted_def)

lemma accounted_run: "run as s = Inr s' \<Longrightarrow> wf s \<Longrightarrow> accounted s \<Longrightarrow> accounted s'"
proof (induction as arbitrary: s)
  case Nil
  then show ?case by simp
next
  case (Cons a as)
  then show ?case
    by (auto split: sum.splits intro: accounted_exec wf_exec)
qed


subsection \<open>Only a node under construction is deleted\<close>

lemma subscribe_not_Deleted: "subscribe b cb s \<noteq> Inl (Deleted a)"
  by (simp add: subscribe_eq split: option.splits)

lemma step_Deleted_cases [consumes 1, case_names drop slot take]:
  assumes "step k s = Inl (Deleted a)"
  obtains
    (drop) rest where "k < length (threads s)" "threads s ! k = Drop a # rest"
      "a < length (nodes s)" "refs s a = 1"
  | (slot) self i parent v rest d where "k < length (threads s)"
      "threads s ! k = Invoke (ParentReady self i parent) v # rest"
      "self < length (nodes s)" "deps_of s self = Some d" "i < length (dependencies d)"
      "dependencies d ! i = Some a" "refs s a = 1"
  | (take) p rest q where "k < length (threads s)" "threads s ! k = WorkerLoop p # rest"
      "p < length (pools s)" "taskQueue (pools s ! p) = Some a # q" "refs s a = 0"
proof -
  from assms have k: "k < length (threads s)"
    by (auto simp: step_def split: if_splits)
  from assms k obtain fr rest where
    st: "threads s ! k = fr # rest" and sf: "step_frame fr rest k s = Inl (Deleted a)"
    by (auto simp: step_def split: list.splits)
  show ?thesis
  proof (cases fr)
    case (Ctor self ps i)
    with sf show ?thesis
      by (auto simp: add_ref_Deleted subscribe_not_Deleted deref_def
          split: if_splits sum.splits option.splits)
  next
    case (Invoke cb v)
    show ?thesis
    proof (cases cb)
      case (ParentReady self i parent)
      with Invoke sf obtain d where
        d: "self < length (nodes s)" "deps_of s self = Some d" "i < length (dependencies d)" and
        a: "assign (dependencies d ! i) parent s = Inl (Deleted a)"
        by (auto simp: deps_of_def split: if_splits option.splits sum.splits)
      from a have "dependencies d ! i = Some a \<and> refs s a = 1"
        by (auto simp: assign_def add_ref_Deleted release_Deleted
            split: if_splits option.splits sum.splits)
      with ParentReady Invoke st k d show ?thesis
        by (auto intro: slot)
    next
      case (KeepDeps self)
      with Invoke sf show ?thesis by simp
    next
      case (UnwrapOuter proxy)
      with Invoke sf show ?thesis
        by (auto simp: add_ref_Deleted subscribe_not_Deleted deref_def
            split: val.splits if_splits sum.splits option.splits)
    next
      case (UnwrapInner proxy)
      with Invoke sf show ?thesis
        by (auto simp: SetValue_locked_def split: if_splits)
    next
      case (UserListener tag)
      with Invoke sf show ?thesis by simp
    qed
  next
    case (Decrement self)
    with sf show ?thesis
      by (auto simp: Let_def split: if_splits option.splits)
  next
    case (KeepAlive self)
    with sf show ?thesis
      by (auto simp: subscribe_not_Deleted split: if_splits sum.splits)
  next
    case (StartMark self)
    with sf show ?thesis
      by (auto simp: MarkAsStarted_def split: if_splits)
  next
    case (StartSchedule self)
    with sf show ?thesis
      by (auto simp: Let_def add_ref_Deleted split: if_splits sum.splits)
  next
    case (Drop b)
    with sf st k show ?thesis
      by (auto simp: release_Deleted split: sum.splits intro: drop)
  next
    case (Drain b)
    with sf show ?thesis
      by (auto simp: GetValueInternal_def split: if_splits option.splits prod.splits)
  next
    case (WorkerLoop p)
    with sf obtain q self s1 where
      p: "p < length (pools s)" and
      t: "WorkerThreadRoutine_locked (pools s ! p) = Inr (Took q (Some self))" and
      a: "add_ref self s = Inr s1" "release self s1 = Inl (Deleted a)"
      by (auto simp: add_ref_Deleted WorkerThreadRoutine_locked_def
          split: if_splits sum.splits taken.splits option.splits list.splits)
    from a have "self = a" "refs s a = 0"
      by (auto simp: add_ref_Inr release_Deleted)
    moreover from t have "taskQueue (pools s ! p) = Some self # taskQueue q"
      by (auto simp: WorkerThreadRoutine_locked_def split: if_splits list.splits)
    ultimately show ?thesis
      using WorkerLoop st k p by (auto intro: take)
  next
    case (CallFunctor self)
    with sf show ?thesis by simp
  next
    case (SetResult self v)
    with sf show ?thesis
      by (auto simp: SetValue_locked_def split: if_splits)
  qed
qed

lemma perform_not_Deleted: "perform c s \<noteq> Inl (Deleted a)"
  by (cases c)
     (auto simp: call_defs AddRef_def MarkAsStarted_def SetValue_locked_def deref_def
        subscribe_not_Deleted split: option.splits sum.splits if_splits prod.splits)

lemma return_not_Deleted: "return k v s \<noteq> Inl (Deleted a)"
  by (auto simp: return_def split: if_splits list.splits frame.splits option.splits)

lemma sum_list_cong_int:
  "\<forall>x\<in>set xs. f x = f' x \<Longrightarrow> (\<Sum>x\<leftarrow>xs. (f x :: int)) = (\<Sum>x\<leftarrow>xs. f' x)"
  by (induction xs) simp_all

lemma total_cong:
  assumes "\<forall>k<length (threads s). \<forall>fr\<in>set (threads s ! k). g fr = g' fr"
  shows "total g s = total g' s"
  unfolding total_def
proof (rule sum_list_cong_int, rule ballI)
  fix st assume "st \<in> set (threads s)"
  then obtain k where "k < length (threads s)" "threads s ! k = st"
    by (auto simp: in_set_conv_nth)
  with assms have "\<forall>fr\<in>set st. g fr = g' fr" by auto
  then show "(\<Sum>fr\<leftarrow>st. g fr) = (\<Sum>fr\<leftarrow>st. g' fr)"
    by (rule sum_list_cong_int)
qed

text \<open>
  In a state that a run of the library has reached, a step that deletes the node \<open>a\<close>
  finds a thread in the constructor of \<open>a\<close>: the node is deleted before
  \<^verbatim>\<open>MakeTaskImpl\<close> has taken the reference of its caller.
\<close>

lemma Deleted_in_constructor:
  assumes "run pre init = Inr s" and "exec act s = Inl (Deleted a)"
  shows "\<exists>k<length (threads s). \<exists>ps i. Ctor a ps i \<in> set (threads s ! k)"
proof (rule ccontr)
  assume no: "\<not> (\<exists>k<length (threads s). \<exists>ps i. Ctor a ps i \<in> set (threads s ! k))"
  let ?g = "\<lambda>fr. if (\<exists>ps i. fr = Ctor a ps i) then 0 else owed a fr"
  have w: "wf s"
    using wf_run [OF assms(1) wf_init] .
  have acc: "accounted s"
    using accounted_run [OF assms(1) wf_init accounted_init] .
  have g0: "0 \<le> ?g fr" for fr :: "'a frame"
    by (cases fr) auto
  from no have "total (owed a) s = total ?g s"
    by (intro total_cong) auto
  then have t: "tally (owed a) (captures a) s = total ?g s + totalq (captures a) s"
    by (simp add: tally_def)
  have q0: "0 \<le> totalq (captures a) s"
    by (intro totalq_nonneg captures_nonneg)
  have t0: "0 \<le> total ?g s"
    by (rule total_nonneg) (rule g0)
  from assms(2) obtain k where act: "act = Step k" and st: "step k s = Inl (Deleted a)"
    by (cases act) (auto simp: perform_not_Deleted return_not_Deleted)
  from st show False
  proof (cases rule: step_Deleted_cases)
    case (drop rest)
    have "?g (Drop a) \<le> total ?g s"
      using drop(1,2) total_ge [of ?g k s "Drop a"] g0 by simp
    with acc drop(3,4) t q0 pooled_nonneg [of a s] slotted_nonneg [of a s]
    show False by (auto simp: accounted_def)
  next
    case (slot self i parent v rest d)
    have a: "a < length (nodes s)"
    proof (rule ccontr)
      assume "\<not> a < length (nodes s)"
      with acc have "slotted a s = 0" by (simp add: accounted_def)
      with slotted_ge [OF slot(3), of a] holds_slot [OF slot(5), of a] slot(4,6)
      show False by simp
    qed
    have "1 \<le> slotted a s"
      using slotted_ge [OF slot(3), of a] holds_slot [OF slot(5), of a] slot(4,6) by simp
    with acc a slot(7) t q0 t0 pooled_nonneg [of a s]
    show False by (auto simp: accounted_def)
  next
    case (take p rest q)
    from wf_queued_task [OF w take(3), of "Some a"] take(4) have a: "a < length (nodes s)"
      by simp
    have "1 \<le> pooled a s"
      using take(3,4) by (intro pooled_ge) auto
    with acc a take(5) t q0 t0 slotted_nonneg [of a s]
    show False by (auto simp: accounted_def)
  qed
qed


subsection \<open>At most one submission\<close>

lemma count_of_simps [simp]:
  "count_of (set_stack k st s) = count_of s"
  "count_of (spawn st s) = count_of s"
  "count_of (set_pool p q s) = count_of s"
  "count_of (new_pool m s) = count_of s"
  "count_of (s\<lparr>gDefaultTaskScheduler := p'\<rparr>) = count_of s"
  "count_of (set_listeners a l s) = count_of s"
  "count_of (write_value a v s) = count_of s"
  "count_of (set_started a s) = count_of s"
  "count_of (set_refs a r s) = count_of s"
  "count_of (recount ops s) = count_of s"
  by (simp_all add: fun_eq_iff count_of_def)

lemma count_of_alloc [simp]:
  "b < length (nodes s) \<Longrightarrow> count_of (alloc n s) b = count_of s b"
  "count_of (alloc n s) (length (nodes s)) =
     (case spDeps n of None \<Rightarrow> 0 | Some d \<Rightarrow> pendingDependencyCount d)"
  by (simp_all add: count_of_def)

lemma count_of_set_deps [simp]:
  "a < length (nodes s) \<Longrightarrow>
   count_of (set_deps a d s) b = (if b = a then pendingDependencyCount d else count_of s b)"
  by (simp add: count_of_def)











subsection \<open>At most one sighting of zero\<close>







subsection \<open>A composite is submitted by the decrement that saw zero\<close>









end
